theory Spec2Isabelle
  imports Main "HOL-Library.Word" "HOL-Library.Multiset" "HOL-Library.Sublist"
begin

unbundle bit_operations_syntax

section \<open>Data model of huffmantree.cpp\<close>

text \<open>
  A \<^verbatim>\<open>CountNode*\<close> is an owned pointer: every node is referenced from exactly one place,
  so a pointer is modelled by the tree it points to, with \<open>nullptr\<close> for the null pointer.
  \<^verbatim>\<open>HuffmanTreeNode\<close> derives from \<^verbatim>\<open>CountNode\<close>: it adds the field \<^verbatim>\<open>letter\<close> and keeps
  \<^verbatim>\<open>count\<close>, \<^verbatim>\<open>left\<close> and \<^verbatim>\<open>right\<close>. The field \<^verbatim>\<open>count\<close> is a C++ \<^verbatim>\<open>int\<close>: a 32-bit word
  read as two's complement by \<open>sint\<close>, whose addition wraps around.
\<close>

datatype CountNode =
    nullptr
  | CountNode (count_field: "32 word") (left: CountNode) (right: CountNode)
  | HuffmanTreeNode (letter: char) (count_field: "32 word") (left: CountNode) (right: CountNode)

text \<open>
  \<^verbatim>\<open>NodeComparison::operator()\<close>: \<^verbatim>\<open>node1->count > node2->count\<close>, a signed comparison.
\<close>

definition NodeComparison :: "CountNode \<Rightarrow> CountNode \<Rightarrow> bool" where
  "NodeComparison node1 node2 = (sint (count_field node2) < sint (count_field node1))"

text \<open>
  The member \<^verbatim>\<open>root\<close> of \<^verbatim>\<open>HuffmanTree\<close> is declared without an initialiser and the struct
  has no constructor, so in a default-initialised object its value is \<open>indeterminate\<close> until
  \<^verbatim>\<open>buildTree\<close> assigns it. After \<^verbatim>\<open>delete root\<close> on a pointer that is not null the member is
  \<open>dangling\<close> until it is assigned again. Otherwise it holds a pointer, null or to a tree.
\<close>

datatype root_value = indeterminate | dangling | pointer CountNode

text \<open>
  The statement \<^verbatim>\<open>if (root) delete root;\<close> evaluates the member. On an indeterminate or a
  dangling value the C++ standard defines no behaviour (in practice the program is killed
  inside \<^verbatim>\<open>delete\<close>, or goes on when the bits happen to be zero): the operations below then
  end with \<open>undefined_behaviour\<close>, and with \<open>defined\<close> of their result otherwise.
\<close>

datatype 'a behaviour = undefined_behaviour | defined 'a

text \<open>
  \<^verbatim>\<open>struct HuffmanTree\<close>. The \<^verbatim>\<open>priority_queue\<close> is modelled by the multiset of the nodes it
  holds: the C++ standard fixes only that \<^verbatim>\<open>top()\<close> is an element that the comparison puts
  before no other one, not which one among equals. The two \<^verbatim>\<open>unordered_map\<close>s are maps;
  the one place that iterates over \<^verbatim>\<open>codeMap\<close> (the table export) takes any enumeration of it.
\<close>

record HuffmanTree =
  root :: root_value
  nodeHeap :: "CountNode multiset"
  codeMap :: "char \<rightharpoonup> string"
  reverseCodeMap :: "string \<rightharpoonup> char"

definition newline :: char where
  "newline = CHR 0x0A"

subsection \<open>The priority queue\<close>

text \<open>
  \<^verbatim>\<open>nodeHeap.top()\<close> followed by \<^verbatim>\<open>nodeHeap.pop()\<close>: \<open>pq_pop h x h'\<close> holds when \<open>x\<close> may be the
  node returned by \<^verbatim>\<open>top()\<close> on the queue \<open>h\<close>, and \<open>h'\<close> is the queue after \<^verbatim>\<open>pop()\<close>.
\<close>

definition pq_top :: "CountNode multiset \<Rightarrow> CountNode \<Rightarrow> bool" where
  "pq_top h x = (x \<in># h \<and> (\<forall>y\<in>#h. \<not> NodeComparison x y))"

definition pq_pop :: "CountNode multiset \<Rightarrow> CountNode \<Rightarrow> CountNode multiset \<Rightarrow> bool" where
  "pq_pop h x h' = (pq_top h x \<and> h' = h - {#x#})"

subsection \<open>countCharFrequencies\<close>

text \<open>
  The loop \<^verbatim>\<open>while (input.get(ch))\<close> over the bytes of the file. \<^verbatim>\<open>charCounts\<close> is kept as an
  association list with distinct keys; its order is immaterial, since the nodes made from
  it are pushed into the priority queue.
\<close>

fun charCounts_update :: "char \<Rightarrow> 32 word \<Rightarrow> (char \<times> 32 word) list \<Rightarrow> (char \<times> 32 word) list" where
  "charCounts_update k v [] = [(k, v)]"
| "charCounts_update k v ((k', v') # ps) =
     (if k = k' then (k, v) # ps else (k', v') # charCounts_update k v ps)"

fun count_loop :: "(char \<times> 32 word) list \<Rightarrow> string \<Rightarrow> (char \<times> 32 word) list" where
  "count_loop charCounts [] = charCounts"
| "count_loop charCounts (ch # rest) =
     count_loop
       (case map_of charCounts ch of
          Some n \<Rightarrow> charCounts_update ch (n + 1) charCounts
        | None \<Rightarrow> charCounts_update ch 1 charCounts)
       rest"

definition countCharFrequencies :: "HuffmanTree \<Rightarrow> string \<Rightarrow> HuffmanTree" where
  "countCharFrequencies st content =
     (let charCounts = count_loop [] content in
      if charCounts = [] then st
      else st\<lparr>nodeHeap := nodeHeap st +
                 mset (map (\<lambda>(c, n). HuffmanTreeNode c n nullptr nullptr) charCounts)\<rparr>)"

subsection \<open>traverseForCodeMap\<close>

text \<open>
  The virtual method: a \<^verbatim>\<open>CountNode\<close> descends into the children that are present, left with
  \<^verbatim>\<open>'0'\<close> appended and then right with \<^verbatim>\<open>'1'\<close>; a \<^verbatim>\<open>HuffmanTreeNode\<close> stores its bits and does
  not descend. The method is never called on a null pointer.
\<close>

fun traverseForCodeMap :: "CountNode \<Rightarrow> (char \<rightharpoonup> string) \<Rightarrow> string \<Rightarrow> (char \<rightharpoonup> string)" where
  "traverseForCodeMap (CountNode c l r) cm prefixBits =
     (let cm1 = (if l \<noteq> nullptr then traverseForCodeMap l cm (prefixBits @ ''0'') else cm)
      in if r \<noteq> nullptr then traverseForCodeMap r cm1 (prefixBits @ ''1'') else cm1)"
| "traverseForCodeMap (HuffmanTreeNode ch c l r) cm bits = cm(ch \<mapsto> bits)"
| "traverseForCodeMap nullptr cm bits = cm"

subsection \<open>buildTree\<close>

text \<open>
  The loop \<^verbatim>\<open>while (nodeHeap.size() > 1)\<close>: the first node popped becomes the right child,
  the second the left child, and the new node carries the sum of their counts.
\<close>

inductive buildLoop :: "CountNode multiset \<Rightarrow> CountNode multiset \<Rightarrow> bool" where
  buildLoop_exit: "\<not> 1 < size h \<Longrightarrow> buildLoop h h"
| buildLoop_step:
    "1 < size h \<Longrightarrow> pq_pop h r h1 \<Longrightarrow> pq_pop h1 l h2 \<Longrightarrow>
     buildLoop (add_mset (CountNode (count_field r + count_field l) l r) h2) h' \<Longrightarrow>
     buildLoop h h'"

text \<open>
  \<^verbatim>\<open>buildTree\<close>: nothing happens on an empty queue, and \<^verbatim>\<open>root\<close> is not even read. Otherwise
  \<^verbatim>\<open>if (root) delete root;\<close> evaluates the member \<^verbatim>\<open>root\<close> (line 110) and deletes the tree
  \<open>old\<close> it points to; then the first node popped becomes the right child of a new root, the
  second one, if there is one, its left child; the root is pushed, the loop runs, the last
  node is popped into \<^verbatim>\<open>root\<close> and the code map is rebuilt from it.
\<close>

inductive buildTree :: "HuffmanTree \<Rightarrow> HuffmanTree behaviour \<Rightarrow> bool" where
  buildTree_empty: "nodeHeap st = {#} \<Longrightarrow> buildTree st (defined st)"
| buildTree_one:
    "nodeHeap st \<noteq> {#} \<Longrightarrow> pq_pop (nodeHeap st) r h1 \<Longrightarrow> h1 = {#} \<Longrightarrow>
     buildLoop (add_mset (CountNode (count_field r) nullptr r) h1) h3 \<Longrightarrow>
     pq_pop h3 t h4 \<Longrightarrow> root st = pointer old \<Longrightarrow>
     buildTree st
       (defined (st\<lparr>root := pointer t, nodeHeap := h4, codeMap := traverseForCodeMap t Map.empty []\<rparr>))"
| buildTree_more:
    "nodeHeap st \<noteq> {#} \<Longrightarrow> pq_pop (nodeHeap st) r h1 \<Longrightarrow> h1 \<noteq> {#} \<Longrightarrow> pq_pop h1 l h2 \<Longrightarrow>
     buildLoop (add_mset (CountNode (count_field r + count_field l) l r) h2) h3 \<Longrightarrow>
     pq_pop h3 t h4 \<Longrightarrow> root st = pointer old \<Longrightarrow>
     buildTree st
       (defined (st\<lparr>root := pointer t, nodeHeap := h4, codeMap := traverseForCodeMap t Map.empty []\<rparr>))"
| buildTree_undefined:
    "nodeHeap st \<noteq> {#} \<Longrightarrow> root st = indeterminate \<or> root st = dangling \<Longrightarrow>
     buildTree st undefined_behaviour"

subsection \<open>encode\<close>

text \<open>
  The export loop \<^verbatim>\<open>output << codeMap[ch]\<close>: \<^verbatim>\<open>operator[]\<close> inserts an empty string for a key
  that is absent.
\<close>

fun export_text :: "(char \<rightharpoonup> string) \<Rightarrow> string \<Rightarrow> string \<Rightarrow> string \<times> (char \<rightharpoonup> string)" where
  "export_text cm [] output = (output, cm)"
| "export_text cm (ch # rest) output =
     (case cm ch of
        Some code \<Rightarrow> export_text cm rest (output @ code)
      | None \<Rightarrow> export_text (cm(ch \<mapsto> [])) rest output)"

text \<open>
  One table record per entry of \<^verbatim>\<open>codeMap\<close>: \<^verbatim>\<open>output << p.first << p.second << endl\<close>.
\<close>

definition export_table :: "(char \<times> string) list \<Rightarrow> string" where
  "export_table recs = concat (map (\<lambda>(c, code). c # code @ [newline]) recs)"

text \<open>
  \<^verbatim>\<open>encode\<close>, from the bytes of the input file to the bytes written to the output file. The
  output stream is opened (the file is created) on line 158, before the frequencies are
  counted; \<open>recs\<close> is the order in which the iteration visits \<^verbatim>\<open>codeMap\<close>.
\<close>

inductive encode :: "HuffmanTree \<Rightarrow> string \<Rightarrow> (HuffmanTree \<times> string) behaviour \<Rightarrow> bool" where
  encode_run:
    "output0 = [] \<Longrightarrow>
     buildTree (countCharFrequencies st content) (defined st2) \<Longrightarrow>
     distinct (map fst recs) \<Longrightarrow> map_of recs = codeMap st2 \<Longrightarrow>
     output1 = output0 @ export_table recs @ [newline] \<Longrightarrow>
     export_text (codeMap st2) content output1 = (output2, cm') \<Longrightarrow>
     encode st content (defined (st2\<lparr>codeMap := cm'\<rparr>, output2))"
| encode_undefined:
    "buildTree (countCharFrequencies st content) undefined_behaviour \<Longrightarrow>
     encode st content undefined_behaviour"

subsection \<open>reconstructTree and decode\<close>

text \<open>
  \<^verbatim>\<open>std::stoi\<close> with base 10, as the C++ standard library defines it through \<^verbatim>\<open>strtol\<close>:
  leading white space is skipped, one sign is accepted, the longest run of decimal digits
  is converted; no digit at all throws \<^verbatim>\<open>std::invalid_argument\<close>, a value outside the range
  of \<^verbatim>\<open>int\<close> throws \<^verbatim>\<open>std::out_of_range\<close>.
\<close>

datatype stoi_exception = invalid_argument | out_of_range

definition isspace :: "char \<Rightarrow> bool" where
  "isspace c = (c = CHR 0x20 \<or> c = CHR 0x09 \<or> c = CHR 0x0A \<or> c = CHR 0x0B \<or> c = CHR 0x0C \<or> c = CHR 0x0D)"

definition isdigit :: "char \<Rightarrow> bool" where
  "isdigit c = (48 \<le> (of_char c :: nat) \<and> (of_char c :: nat) \<le> 57)"

fun digits_value :: "int \<Rightarrow> string \<Rightarrow> int" where
  "digits_value acc [] = acc"
| "digits_value acc (d # ds) = digits_value (10 * acc + (of_char d - 48)) ds"

definition stoi :: "string \<Rightarrow> stoi_exception + int" where
  "stoi str =
     (let s1 = dropWhile isspace str;
          neg = (s1 \<noteq> [] \<and> hd s1 = CHR ''-'');
          s2 = (if s1 \<noteq> [] \<and> (hd s1 = CHR ''-'' \<or> hd s1 = CHR ''+'') then tl s1 else s1);
          ds = takeWhile isdigit s2
      in if ds = [] then Inl invalid_argument
         else let v = (if neg then - digits_value 0 ds else digits_value 0 ds)
              in if v < - 2147483648 \<or> 2147483647 < v then Inl out_of_range else Inr v)"

text \<open>
  \<^verbatim>\<open>getline(input, line)\<close> on the rest of the stream: it fails at the end of the stream, and
  otherwise returns the characters up to the next newline, which it consumes.
\<close>

fun getline :: "string \<Rightarrow> (string \<times> string) option" where
  "getline [] = None"
| "getline (c # cs) =
     (if c = newline then Some ([], cs)
      else (case getline cs of
              None \<Rightarrow> Some ([c], [])
            | Some (line, rest) \<Rightarrow> Some (c # line, rest)))"

text \<open>Assignments through \<^verbatim>\<open>current->left\<close> and \<^verbatim>\<open>current->right\<close>; \<^verbatim>\<open>current\<close> is never null.\<close>

fun set_left :: "CountNode \<Rightarrow> CountNode \<Rightarrow> CountNode" where
  "set_left (CountNode c l r) n = CountNode c n r"
| "set_left (HuffmanTreeNode ch c l r) n = HuffmanTreeNode ch c n r"
| "set_left nullptr n = nullptr"

fun set_right :: "CountNode \<Rightarrow> CountNode \<Rightarrow> CountNode" where
  "set_right (CountNode c l r) n = CountNode c l n"
| "set_right (HuffmanTreeNode ch c l r) n = HuffmanTreeNode ch c l n"
| "set_right nullptr n = nullptr"

text \<open>
  The walk of lines 204 to 222, from \<^verbatim>\<open>current\<close> downwards, returning the updated subtree:
  \<^verbatim>\<open>while (length-- > 1)\<close> follows the lowest bit of \<^verbatim>\<open>binary\<close> (creating a \<^verbatim>\<open>CountNode\<close>
  where the child is missing) and shifts \<^verbatim>\<open>binary\<close> right; the step after the loop hangs a
  new \<^verbatim>\<open>HuffmanTreeNode\<close> on the side the lowest bit tells. \<^verbatim>\<open>binary\<close> is within the range of
  \<^verbatim>\<open>int\<close>, where \<open>AND\<close> and \<open>drop_bit\<close> on \<open>int\<close> are the machine's.
\<close>

fun reconstruct_walk :: "CountNode \<Rightarrow> int \<Rightarrow> nat \<Rightarrow> char \<Rightarrow> CountNode" where
  "reconstruct_walk current binary len ch =
     (if 1 < len then
        (if binary AND 1 = 1 then
           set_right current
             (reconstruct_walk
                (if right current = nullptr then CountNode 0 nullptr nullptr else right current)
                (drop_bit 1 binary) (len - 1) ch)
         else
           set_left current
             (reconstruct_walk
                (if left current = nullptr then CountNode 0 nullptr nullptr else left current)
                (drop_bit 1 binary) (len - 1) ch))
      else
        (if binary AND 1 = 1 then set_right current (HuffmanTreeNode ch 0 nullptr nullptr)
         else set_left current (HuffmanTreeNode ch 0 nullptr nullptr)))"

declare reconstruct_walk.simps [simp del]

text \<open>
  The loop \<^verbatim>\<open>while (getline(input, line))\<close> of \<^verbatim>\<open>reconstructTree\<close>, on the local tree
  \<^verbatim>\<open>root\<close>, the object's maps and the rest of the stream. An exception of \<^verbatim>\<open>stoi\<close> ends it,
  with the local tree and the maps as they are at that moment.
\<close>

function reconstruct_loop ::
  "CountNode \<Rightarrow> HuffmanTree \<Rightarrow> string \<Rightarrow>
   (stoi_exception \<times> CountNode \<times> HuffmanTree) + (CountNode \<times> HuffmanTree \<times> string)" where
  "reconstruct_loop local_root st input =
     (case getline input of
        None \<Rightarrow> Inr (local_root, st, input)
      | Some (line, rest) \<Rightarrow>
          if line = [] then Inr (local_root, st, rest)
          else
            let ch = hd line;
                s_binary = tl line;
                st1 = st\<lparr>codeMap := (codeMap st)(ch \<mapsto> s_binary),
                         reverseCodeMap := (reverseCodeMap st)(s_binary \<mapsto> ch)\<rparr>
            in (case stoi s_binary of
                  Inl e \<Rightarrow> Inl (e, local_root, st1)
                | Inr binary \<Rightarrow>
                    reconstruct_loop (reconstruct_walk local_root binary (length s_binary) ch) st1 rest))"
  by pat_completeness auto
termination
proof -
  have shorter: "getline s = Some (line, rest) \<Longrightarrow> length rest < length s" for s line rest
    by (induction s arbitrary: line rest) (auto split: if_splits option.splits)
  show ?thesis
    by (relation "measure (\<lambda>(t, st, input). length input)") (auto dest: shorter)
qed

declare reconstruct_loop.simps [simp del]

text \<open>
  \<^verbatim>\<open>reconstructTree\<close>: its first statement \<^verbatim>\<open>if (root) delete root;\<close> evaluates the member
  \<^verbatim>\<open>root\<close> (line 185) and deletes the tree it points to. Then both maps are cleared and the
  tree is built under a local variable \<^verbatim>\<open>root\<close> that hides the member, so the member is not
  assigned: it stays null if it was null, and is left dangling if it pointed to a tree.
\<close>

definition reconstructTree ::
  "HuffmanTree \<Rightarrow> string \<Rightarrow>
   ((stoi_exception \<times> CountNode \<times> HuffmanTree) + (CountNode \<times> HuffmanTree \<times> string)) behaviour" where
  "reconstructTree st input =
     (case root st of
        indeterminate \<Rightarrow> undefined_behaviour
      | dangling \<Rightarrow> undefined_behaviour
      | pointer old \<Rightarrow>
          defined
            (reconstruct_loop (CountNode 0 nullptr nullptr)
               (st\<lparr>root := (if old = nullptr then pointer nullptr else dangling),
                   codeMap := Map.empty, reverseCodeMap := Map.empty\<rparr>) input))"

text \<open>
  The loop \<^verbatim>\<open>while (input >> ch)\<close> of \<^verbatim>\<open>decode\<close>: formatted extraction skips white space
  before each character and fails at the end of the stream. The result is the output
  written and the bits left in \<^verbatim>\<open>binary\<close>.
\<close>

function decode_loop :: "(string \<rightharpoonup> char) \<Rightarrow> string \<Rightarrow> string \<Rightarrow> string \<Rightarrow> string \<times> string" where
  "decode_loop rcm input binary output =
     (case dropWhile isspace input of
        [] \<Rightarrow> (output, binary)
      | ch # rest \<Rightarrow>
          (case rcm (binary @ [ch]) of
             Some c \<Rightarrow> decode_loop rcm rest [] (output @ [c])
           | None \<Rightarrow> decode_loop rcm rest (binary @ [ch]) output))"
  by pat_completeness auto
termination
proof -
  have shorter: "dropWhile P xs = y # ys \<Longrightarrow> length ys < length xs"
    for P :: "char \<Rightarrow> bool" and xs y ys
    using length_dropWhile_le [of P xs] by simp
  show ?thesis
    by (relation "measure (\<lambda>(rcm, input, binary, out). length input)")
       (auto dest: shorter)
qed

declare decode_loop.simps [simp del]

text \<open>
  \<^verbatim>\<open>decode\<close>, from the bytes of the encoded file to the outcome and the bytes written to
  the output file, which is created first. An exception of \<^verbatim>\<open>stoi\<close> is not caught: it ends
  the program before anything is written.
\<close>

definition decode ::
  "HuffmanTree \<Rightarrow> string \<Rightarrow>
   (((stoi_exception \<times> CountNode \<times> HuffmanTree) + HuffmanTree) \<times> string) behaviour" where
  "decode st content =
     (let output = [] in
      case reconstructTree st content of
        undefined_behaviour \<Rightarrow> undefined_behaviour
      | defined (Inl thrown) \<Rightarrow> defined (Inl thrown, output)
      | defined (Inr (local_root, st1, rest)) \<Rightarrow>
          defined (Inr st1, fst (decode_loop (reverseCodeMap st1) rest [] output)))"

text \<open>
  The object \<^verbatim>\<open>HuffmanTree tree;\<close> that \<^verbatim>\<open>main\<close> declares (line 261) and on which it calls
  \<^verbatim>\<open>encode\<close> or \<^verbatim>\<open>decode\<close>, once: the queue and both maps are empty, and the member \<^verbatim>\<open>root\<close>,
  which has no initialiser, is indeterminate.
\<close>

definition fresh :: HuffmanTree where
  "fresh = \<lparr>root = indeterminate, nodeHeap = {#}, codeMap = Map.empty, reverseCodeMap = Map.empty\<rparr>"

text \<open>
  The same object with a null \<^verbatim>\<open>root\<close>: what \<^verbatim>\<open>HuffmanTree tree{};\<close> would declare, and what the
  object of \<^verbatim>\<open>main\<close> is in the runs in which the bits of its \<^verbatim>\<open>root\<close> happen to be zero.
\<close>

definition value_initialised :: HuffmanTree where
  "value_initialised = fresh\<lparr>root := pointer nullptr\<rparr>"

section \<open>Notions used to state the properties\<close>

text \<open>
  The path walk as the specification words it: the bits of the code are taken in order,
  \<^verbatim>\<open>'0'\<close> selects the left child and \<^verbatim>\<open>'1'\<close> the right child, a missing intermediate node
  is created, and the position selected by the last bit receives a new leaf.
\<close>

fun follow_code :: "CountNode \<Rightarrow> string \<Rightarrow> char \<Rightarrow> CountNode" where
  "follow_code current [] ch = current"
| "follow_code current [b] ch =
     (if b = CHR ''1'' then set_right current (HuffmanTreeNode ch 0 nullptr nullptr)
      else set_left current (HuffmanTreeNode ch 0 nullptr nullptr))"
| "follow_code current (b # bs) ch =
     (if b = CHR ''1'' then
        set_right current
          (follow_code (if right current = nullptr then CountNode 0 nullptr nullptr else right current) bs ch)
      else
        set_left current
          (follow_code (if left current = nullptr then CountNode 0 nullptr nullptr else left current) bs ch))"

text \<open>The text of a table section: each record line is followed by a newline.\<close>

definition table_text :: "string list \<Rightarrow> string" where
  "table_text ls = concat (map (\<lambda>l. l @ [newline]) ls)"

text \<open>
  The records of a table as they stand in its text, without any tree: each line up to the
  first empty line (or the end of the stream) gives the pair of its first character and
  of the rest of the line; what follows the empty line is the payload.
\<close>

function read_table :: "string \<Rightarrow> (char \<times> string) list \<times> string" where
  "read_table input =
     (case getline input of
        None \<Rightarrow> ([], input)
      | Some (line, rest) \<Rightarrow>
          if line = [] then ([], rest)
          else (case read_table rest of (recs, payload) \<Rightarrow> ((hd line, tl line) # recs, payload)))"
  by pat_completeness auto
termination
proof -
  have shorter: "getline s = Some (line, rest) \<Longrightarrow> length rest < length s" for s line rest
    by (induction s arbitrary: line rest) (auto split: if_splits option.splits)
  show ?thesis
    by (relation "measure length") (auto dest: shorter)
qed

declare read_table.simps [simp del]

definition stoi_accepts :: "char \<times> string \<Rightarrow> bool" where
  "stoi_accepts rec = (case stoi (snd rec) of Inl e \<Rightarrow> False | Inr v \<Rightarrow> True)"

definition reverse_map_of :: "(char \<times> string) list \<Rightarrow> (string \<rightharpoonup> char) \<Rightarrow> (string \<rightharpoonup> char)" where
  "reverse_map_of recs m = fold (\<lambda>rec m. m(snd rec \<mapsto> fst rec)) recs m"

text \<open>
  The bit paths from a node to the leaves below it, as \<^verbatim>\<open>traverseForCodeMap\<close> accumulates
  them: a \<^verbatim>\<open>HuffmanTreeNode\<close> ends the path.
\<close>

fun leaf_paths :: "CountNode \<Rightarrow> string \<Rightarrow> string set" where
  "leaf_paths nullptr p = {}"
| "leaf_paths (HuffmanTreeNode ch c l r) p = {p}"
| "leaf_paths (CountNode c l r) p = leaf_paths l (p @ ''0'') \<union> leaf_paths r (p @ ''1'')"

text \<open>
  Every internal node (a \<^verbatim>\<open>CountNode\<close>) has both children, and its count is the sum of
  theirs.
\<close>

fun internal_full :: "CountNode \<Rightarrow> bool" where
  "internal_full nullptr = True"
| "internal_full (HuffmanTreeNode ch c l r) = (internal_full l \<and> internal_full r)"
| "internal_full (CountNode c l r) =
     (l \<noteq> nullptr \<and> r \<noteq> nullptr \<and> c = count_field l + count_field r \<and>
      internal_full l \<and> internal_full r)"

text \<open>
  A worked example: the tree and the object that \<^verbatim>\<open>buildTree\<close> produces for the text
  \<^verbatim>\<open>abbcccc\<close>, where no two counts are ever equal.
\<close>

definition abbcccc_root :: CountNode where
  "abbcccc_root =
     CountNode 7 (HuffmanTreeNode (CHR ''c'') 4 nullptr nullptr)
       (CountNode 3 (HuffmanTreeNode (CHR ''b'') 2 nullptr nullptr)
                    (HuffmanTreeNode (CHR ''a'') 1 nullptr nullptr))"

definition abbcccc_built :: HuffmanTree where
  "abbcccc_built =
     \<lparr>root = pointer abbcccc_root, nodeHeap = {#},
      codeMap = [CHR ''c'' \<mapsto> ''0'', CHR ''b'' \<mapsto> ''10'', CHR ''a'' \<mapsto> ''11''],
      reverseCodeMap = Map.empty\<rparr>"

text \<open>
  A text in which a count overflows: \<open>2 ^ 31\<close> times \<^verbatim>\<open>a\<close>, then \<^verbatim>\<open>bcc\<close>. The count of \<^verbatim>\<open>a\<close>
  wraps around to the least \<^verbatim>\<open>int\<close>, so that the leaf of \<^verbatim>\<open>a\<close> is the first one popped.
\<close>

definition overflow_text :: string where
  "overflow_text = replicate (2 ^ 31) (CHR ''a'') @ ''bcc''"

definition overflow_root :: CountNode where
  "overflow_root =
     CountNode 2147483651 (HuffmanTreeNode (CHR ''c'') 2 nullptr nullptr)
       (CountNode 2147483649 (HuffmanTreeNode (CHR ''b'') 1 nullptr nullptr)
                             (HuffmanTreeNode (CHR ''a'') 2147483648 nullptr nullptr))"

definition overflow_built :: HuffmanTree where
  "overflow_built =
     \<lparr>root = pointer overflow_root, nodeHeap = {#},
      codeMap = [CHR ''c'' \<mapsto> ''0'', CHR ''b'' \<mapsto> ''10'', CHR ''a'' \<mapsto> ''11''],
      reverseCodeMap = Map.empty\<rparr>"

text \<open>The count of a node, read as the signed integer it is.\<close>

definition wt :: "CountNode \<Rightarrow> int" where
  "wt n = sint (count_field n)"

text \<open>
  A frontier of a tree: subtrees, each with its depth, that together cover the tree. The
  nodes of the priority queue are at every moment a frontier of the tree that the loop of
  \<^verbatim>\<open>buildTree\<close> will end with.
\<close>

inductive frontier :: "CountNode \<Rightarrow> nat \<Rightarrow> (CountNode \<times> nat) multiset \<Rightarrow> bool" where
  frontier_here: "frontier t d {#(t, d)#}"
| frontier_below:
    "frontier l (Suc d) A \<Longrightarrow> frontier r (Suc d) B \<Longrightarrow> frontier (CountNode c l r) d (A + B)"

text \<open>
  The invariant of the weights and depths of the nodes on and above the frontier: no
  weight is below \<open>m\<close>; a node that is not the root has a parent, one level up, heavier
  by \<open>m\<close> at least; and a strictly heavier node is never deeper.
\<close>

definition depth_inv :: "(int \<times> nat) set \<Rightarrow> int \<Rightarrow> bool" where
  "depth_inv A m =
     ((\<forall>w d. (w, d) \<in> A \<longrightarrow> m \<le> w) \<and>
      (\<forall>w d. (w, d) \<in> A \<longrightarrow> d = 0 \<or> (\<exists>w'. (w', d - 1) \<in> A \<and> w + m \<le> w')) \<and>
      (\<forall>w1 d1 w2 d2. (w1, d1) \<in> A \<longrightarrow> (w2, d2) \<in> A \<longrightarrow> w1 < w2 \<longrightarrow> d2 \<le> d1))"

text \<open>
  A text of 753 bytes over twelve symbols, with the frequencies 1, 2, 4, 5, 8, 13, 21, 34,
  55, 89, 144 and 377: at every step of \<^verbatim>\<open>buildTree\<close> the two smallest counts in the queue
  are distinct and smaller than all the others, so the tree does not depend on how the
  priority queue treats equal counts. The tree and the object that \<^verbatim>\<open>buildTree\<close> leaves.
\<close>

definition deep_text :: string where
  "deep_text =
     replicate 1 (CHR ''a'') @
     replicate 2 (CHR ''b'') @
     replicate 4 (CHR ''c'') @
     replicate 5 (CHR ''d'') @
     replicate 8 (CHR ''e'') @
     replicate 13 (CHR ''f'') @
     replicate 21 (CHR ''g'') @
     replicate 34 (CHR ''h'') @
     replicate 55 (CHR ''i'') @
     replicate 89 (CHR ''j'') @
     replicate 144 (CHR ''k'') @
     replicate 377 (CHR ''l'')"

definition deep_root :: CountNode where
  "deep_root =
     CountNode 753 (HuffmanTreeNode (CHR ''l'') 377 nullptr nullptr) (CountNode 376 (CountNode 232 (CountNode 143 (CountNode 88 (CountNode 54 (CountNode 33 (CountNode 20 (CountNode 12 (CountNode 7 (HuffmanTreeNode (CHR ''c'') 4 nullptr nullptr) (CountNode 3 (HuffmanTreeNode (CHR ''b'') 2 nullptr nullptr) (HuffmanTreeNode (CHR ''a'') 1 nullptr nullptr))) (HuffmanTreeNode (CHR ''d'') 5 nullptr nullptr)) (HuffmanTreeNode (CHR ''e'') 8 nullptr nullptr)) (HuffmanTreeNode (CHR ''f'') 13 nullptr nullptr)) (HuffmanTreeNode (CHR ''g'') 21 nullptr nullptr)) (HuffmanTreeNode (CHR ''h'') 34 nullptr nullptr)) (HuffmanTreeNode (CHR ''i'') 55 nullptr nullptr)) (HuffmanTreeNode (CHR ''j'') 89 nullptr nullptr)) (HuffmanTreeNode (CHR ''k'') 144 nullptr nullptr))"

definition deep_built :: HuffmanTree where
  "deep_built =
     \<lparr>root = pointer deep_root, nodeHeap = {#},
      codeMap = [CHR ''l'' \<mapsto> ''0'',
                 CHR ''c'' \<mapsto> ''1000000000'',
                 CHR ''b'' \<mapsto> ''10000000010'',
                 CHR ''a'' \<mapsto> ''10000000011'',
                 CHR ''d'' \<mapsto> ''100000001'',
                 CHR ''e'' \<mapsto> ''10000001'',
                 CHR ''f'' \<mapsto> ''1000001'',
                 CHR ''g'' \<mapsto> ''100001'',
                 CHR ''h'' \<mapsto> ''10001'',
                 CHR ''i'' \<mapsto> ''1001'',
                 CHR ''j'' \<mapsto> ''101'',
                 CHR ''k'' \<mapsto> ''11''],
      reverseCodeMap = Map.empty\<rparr>"

text \<open>
  The leaves below a node in the order in which \<^verbatim>\<open>traverseForCodeMap\<close> visits them, each
  with the bits of its path; and the letters of those leaves.
\<close>

fun codes_of :: "CountNode \<Rightarrow> string \<Rightarrow> (char \<times> string) list" where
  "codes_of nullptr p = []"
| "codes_of (HuffmanTreeNode ch c l r) p = [(ch, p)]"
| "codes_of (CountNode c l r) p = codes_of l (p @ ''0'') @ codes_of r (p @ ''1'')"

fun letters :: "CountNode \<Rightarrow> char multiset" where
  "letters nullptr = {#}"
| "letters (HuffmanTreeNode ch c l r) = {#ch#}"
| "letters (CountNode c l r) = letters l + letters r"

section \<open>Basic facts\<close>

subsection \<open>The frequency count\<close>

lemma map_of_charCounts_update:
  "map_of (charCounts_update k v ps) = (map_of ps)(k \<mapsto> v)"
  by (induction ps) auto

lemma fst_set_charCounts_update:
  "fst ` set (charCounts_update k v ps) = insert k (fst ` set ps)"
proof -
  have "dom (map_of (charCounts_update k v ps)) = insert k (dom (map_of ps))"
    by (simp add: map_of_charCounts_update)
  then show ?thesis by (simp add: dom_map_of_conv_image_fst)
qed

lemma distinct_charCounts_update:
  "distinct (map fst ps) \<Longrightarrow> distinct (map fst (charCounts_update k v ps))"
  by (induction ps) (auto simp: fst_set_charCounts_update)

lemma distinct_count_loop:
  "distinct (map fst acc) \<Longrightarrow> distinct (map fst (count_loop acc s))"
  by (induction s arbitrary: acc) (auto simp: distinct_charCounts_update split: option.splits)

lemma map_of_count_loop:
  "map_of (count_loop acc s) c =
     (case map_of acc c of
        Some n \<Rightarrow> Some (n + of_nat (count_list s c))
      | None \<Rightarrow> if c \<in> set s then Some (of_nat (count_list s c)) else None)"
proof (induction s arbitrary: acc)
  case Nil
  then show ?case by (simp split: option.splits)
next
  case (Cons ch rest)
  show ?case
  proof (cases "map_of acc ch")
    case None
    then show ?thesis
      by (simp add: Cons.IH map_of_charCounts_update split: option.splits)
  next
    case (Some n)
    then show ?thesis
      by (simp add: Cons.IH map_of_charCounts_update split: option.splits)
  qed
qed

lemma count_loop_Nil_iff: "count_loop [] s = [] \<longleftrightarrow> s = []"
proof
  assume "count_loop [] s = []"
  then have "map_of (count_loop [] s) = Map.empty" by simp
  then have "\<And>c. c \<notin> set s"
    by (simp add: map_of_count_loop fun_eq_iff split: if_splits)
  then show "s = []" by (cases s) auto
qed simp

lemma fst_set_count_loop: "fst ` set (count_loop [] s) = set s"
proof -
  have "dom (map_of (count_loop [] s)) = set s"
    by (auto simp: map_of_count_loop dom_def split: if_splits)
  then show ?thesis by (simp add: dom_map_of_conv_image_fst)
qed

lemma countCharFrequencies_Nil: "countCharFrequencies st [] = st"
  by (simp add: countCharFrequencies_def)

subsection \<open>The priority queue and the loop of buildTree\<close>

lemma pq_top_exists: "h \<noteq> {#} \<Longrightarrow> \<exists>x. pq_top h x"
proof -
  assume ne: "h \<noteq> {#}"
  define f where "f = (\<lambda>n. sint (count_field n))"
  have fin: "finite (f ` set_mset h)" by simp
  have "f ` set_mset h \<noteq> {}" using ne by simp
  then obtain x where x: "x \<in># h" "f x = Min (f ` set_mset h)"
    using Min_in [OF fin] by (metis (no_types, lifting) imageE)
  have "\<forall>y\<in>#h. f x \<le> f y" using x fin by simp
  then show ?thesis using x(1) unfolding pq_top_def NodeComparison_def f_def
    by (auto simp: not_less)
qed

lemma pq_pop_exists: "h \<noteq> {#} \<Longrightarrow> \<exists>x h'. pq_pop h x h'"
  using pq_top_exists by (auto simp: pq_pop_def)

lemma pq_pop_add: "pq_pop h x h' \<Longrightarrow> h = add_mset x h'"
  by (auto simp: pq_pop_def pq_top_def)

lemma pq_pop_size: "pq_pop h x h' \<Longrightarrow> size h = Suc (size h')"
  by (auto dest: pq_pop_add)

lemma buildLoop_total: "\<exists>h'. buildLoop h h'"
proof (induction "size h" arbitrary: h rule: less_induct)
  case less
  show ?case
  proof (cases "1 < size h")
    case False
    then show ?thesis by (blast intro: buildLoop_exit)
  next
    case True
    then have "h \<noteq> {#}" by auto
    then obtain r h1 where r: "pq_pop h r h1" using pq_pop_exists by blast
    then have s1: "size h = Suc (size h1)" by (rule pq_pop_size)
    with True have "h1 \<noteq> {#}" by auto
    then obtain l h2 where l: "pq_pop h1 l h2" using pq_pop_exists by blast
    then have s2: "size h1 = Suc (size h2)" by (rule pq_pop_size)
    let ?h = "add_mset (CountNode (count_field r + count_field l) l r) h2"
    have "size ?h < size h" using s1 s2 by simp
    from less [OF this] obtain h' where "buildLoop ?h h'" by blast
    then show ?thesis using buildLoop_step [OF True r l] by blast
  qed
qed

lemma buildLoop_size: "buildLoop h h' \<Longrightarrow> h \<noteq> {#} \<Longrightarrow> size h' = 1"
proof (induction rule: buildLoop.induct)
  case (buildLoop_exit h)
  then show ?case by (cases h) auto
next
  case (buildLoop_step h r h1 l h2 h')
  then show ?case by simp
qed

lemma buildTree_empty_heap: "nodeHeap st = {#} \<Longrightarrow> buildTree st r \<longleftrightarrow> r = defined st"
  by (auto elim: buildTree.cases intro: buildTree_empty)

subsection \<open>Reading the table\<close>

lemmas decode_eval =
  decode_def reconstructTree_def reconstruct_loop.simps reconstruct_walk.simps
  decode_loop.simps newline_def stoi_def isspace_def isdigit_def fresh_def
  value_initialised_def Let_def
  table_text_def

lemma getline_line: "newline \<notin> set l \<Longrightarrow> getline (l @ newline # rest) = Some (l, rest)"
  by (induction l) auto

lemma getline_last: "l \<noteq> [] \<Longrightarrow> newline \<notin> set l \<Longrightarrow> getline l = Some (l, [])"
proof (induction l)
  case Nil
  then show ?case by simp
next
  case (Cons c cs)
  then show ?case by (cases cs) auto
qed

lemma stoi_Nil: "stoi [] = Inl invalid_argument"
  by (simp add: stoi_def)

subsection \<open>A run of buildTree\<close>

lemma pq_pop_min:
  "x \<in># h \<Longrightarrow> (\<forall>y\<in>#h. sint (count_field x) \<le> sint (count_field y)) \<Longrightarrow> h' = h - {#x#} \<Longrightarrow> pq_pop h x h'"
  by (auto simp: pq_pop_def pq_top_def NodeComparison_def not_less)

lemma countCharFrequencies_abbcccc:
  "countCharFrequencies value_initialised ''abbcccc'' =
     value_initialised\<lparr>nodeHeap := {#HuffmanTreeNode (CHR ''a'') 1 nullptr nullptr,
                          HuffmanTreeNode (CHR ''b'') 2 nullptr nullptr,
                          HuffmanTreeNode (CHR ''c'') 4 nullptr nullptr#}\<rparr>"
  by (simp add: countCharFrequencies_def fresh_def value_initialised_def)

lemma buildTree_abbcccc:
  "buildTree (countCharFrequencies value_initialised ''abbcccc'') (defined abbcccc_built)"
proof -
  let ?a = "HuffmanTreeNode (CHR ''a'') 1 nullptr nullptr"
  let ?b = "HuffmanTreeNode (CHR ''b'') 2 nullptr nullptr"
  let ?c = "HuffmanTreeNode (CHR ''c'') 4 nullptr nullptr"
  let ?n = "CountNode 3 ?b ?a"
  let ?st = "value_initialised\<lparr>nodeHeap := {#?a, ?b, ?c#}\<rparr>"
  have p1: "pq_pop (nodeHeap ?st) ?a {#?b, ?c#}" by (rule pq_pop_min) simp_all
  have p2: "pq_pop {#?b, ?c#} ?b {#?c#}" by (rule pq_pop_min) simp_all
  have p3: "pq_pop {#?n, ?c#} ?n {#?c#}" by (rule pq_pop_min) simp_all
  have p4: "pq_pop {#?c#} ?c {#}" by (rule pq_pop_min) simp_all
  have p5: "pq_pop {#abbcccc_root#} abbcccc_root {#}" by (rule pq_pop_min) simp_all
  have l2: "buildLoop {#abbcccc_root#} {#abbcccc_root#}" by (rule buildLoop_exit) simp
  have l2': "buildLoop (add_mset (CountNode (count_field ?n + count_field ?c) ?c ?n) {#}) {#abbcccc_root#}"
    using l2 by (simp add: abbcccc_root_def)
  have l1: "buildLoop {#?n, ?c#} {#abbcccc_root#}"
    by (rule buildLoop_step [OF _ p3 p4 l2']) simp
  have l0: "buildLoop (add_mset (CountNode (count_field ?a + count_field ?b) ?b ?a) {#?c#}) {#abbcccc_root#}"
    using l1 by simp
  have r: "root ?st = pointer nullptr" by (simp add: value_initialised_def)
  have "buildTree ?st
     (defined (?st\<lparr>root := pointer abbcccc_root, nodeHeap := {#},
           codeMap := traverseForCodeMap abbcccc_root Map.empty []\<rparr>))"
    by (rule buildTree_more [OF _ p1 _ p2 l0 p5 r]) simp_all
  moreover have "?st\<lparr>root := pointer abbcccc_root, nodeHeap := {#},
           codeMap := traverseForCodeMap abbcccc_root Map.empty []\<rparr> = abbcccc_built"
    by (simp add: abbcccc_built_def abbcccc_root_def fresh_def value_initialised_def)
  ultimately show ?thesis by (simp add: countCharFrequencies_abbcccc)
qed

subsection \<open>Invariants of the loop, and the tree of a single symbol\<close>

lemma buildLoop_invariant:
  assumes "buildLoop h h'" and "\<forall>n\<in>#h. P n"
    and "\<And>l r. P l \<Longrightarrow> P r \<Longrightarrow> P (CountNode (count_field r + count_field l) l r)"
  shows "\<forall>n\<in>#h'. P n"
  using assms(1,2)
proof (induction rule: buildLoop.induct)
  case (buildLoop_exit h)
  then show ?case by simp
next
  case (buildLoop_step h r h1 l h2 h')
  from buildLoop_step.hyps(2,3) have h: "h = add_mset r (add_mset l h2)"
    by (auto dest: pq_pop_add)
  with buildLoop_step.prems have "P r" "P l" "\<forall>n\<in>#h2. P n" by auto
  with assms(3) have "\<forall>n\<in>#add_mset (CountNode (count_field r + count_field l) l r) h2. P n"
    by auto
  then show ?case by (rule buildLoop_step.IH)
qed

lemma buildLoop_single: "buildLoop {#x#} h' \<longleftrightarrow> h' = {#x#}"
proof
  assume "buildLoop {#x#} h'"
  then show "h' = {#x#}" by (cases rule: buildLoop.cases) auto
next
  assume "h' = {#x#}"
  then show "buildLoop {#x#} h'" by (auto intro: buildLoop_exit)
qed

lemma pq_pop_single: "pq_pop {#x#} y h' \<longleftrightarrow> y = x \<and> h' = {#}"
  by (auto simp: pq_pop_def pq_top_def NodeComparison_def)

lemma nodeHeap_countCharFrequencies:
  "nodeHeap st = {#} \<Longrightarrow>
     nodeHeap (countCharFrequencies st content) =
       mset (map (\<lambda>(c, n). HuffmanTreeNode c n nullptr nullptr) (count_loop [] content))"
  by (simp add: countCharFrequencies_def Let_def)

lemma length_count_loop: "length (count_loop [] content) = card (set content)"
proof -
  have "distinct (map fst (count_loop [] content))" by (simp add: distinct_count_loop)
  then have "card (set (map fst (count_loop [] content))) = length (map fst (count_loop [] content))"
    by (rule distinct_card)
  then show ?thesis by (simp add: fst_set_count_loop)
qed

lemma count_loop_single:
  assumes "set content = {a}"
  shows "count_loop [] content = [(a, of_nat (length content))]"
proof -
  have "length (count_loop [] content) = 1" using assms by (simp add: length_count_loop)
  then obtain p where p: "count_loop [] content = [p]"
    by (cases "count_loop [] content") auto
  have "fst ` set (count_loop [] content) = {a}" using assms by (simp add: fst_set_count_loop)
  with p have fp: "fst p = a" by simp
  have "set xs \<subseteq> {a} \<Longrightarrow> count_list xs a = length xs" for xs :: string
    by (induction xs) auto
  then have cl: "count_list content a = length content"
    using assms by simp
  have "map_of (count_loop [] content) a = Some (of_nat (count_list content a))"
    using assms by (simp add: map_of_count_loop)
  with p fp cl have "snd p = of_nat (length content)" by (cases p) simp
  with p fp show ?thesis by (cases p) simp
qed

lemma root_countCharFrequencies: "root (countCharFrequencies st content) = root st"
  by (simp add: countCharFrequencies_def Let_def)

lemma buildTree_single:
  assumes "nodeHeap st = {#}" and "set content = {a}" and "root st = pointer old"
  shows "buildTree (countCharFrequencies st content) res \<longleftrightarrow>
           res = defined ((countCharFrequencies st content)
              \<lparr>root := pointer (CountNode (of_nat (length content)) nullptr
                         (HuffmanTreeNode a (of_nat (length content)) nullptr nullptr)),
               nodeHeap := {#}, codeMap := [a \<mapsto> ''1'']\<rparr>)"
proof -
  let ?n = "of_nat (length content) :: 32 word"
  let ?leaf = "HuffmanTreeNode a ?n nullptr nullptr"
  let ?root = "CountNode ?n nullptr ?leaf"
  let ?st1 = "countCharFrequencies st content"
  have heap: "nodeHeap ?st1 = {#?leaf#}"
    using assms(1,2) by (simp add: nodeHeap_countCharFrequencies count_loop_single)
  have root: "root ?st1 = pointer old"
    using assms(3) by (simp add: root_countCharFrequencies)
  have tr: "traverseForCodeMap ?root Map.empty [] = [a \<mapsto> ''1'']" by simp
  show ?thesis
  proof
    assume "buildTree ?st1 res"
    then show "res = defined (?st1\<lparr>root := pointer ?root, nodeHeap := {#}, codeMap := [a \<mapsto> ''1'']\<rparr>)"
    proof (cases rule: buildTree.cases)
      case buildTree_empty
      with heap show ?thesis by simp
    next
      case (buildTree_one r h1 h3 t h4 old')
      from buildTree_one(3) heap have r: "r = ?leaf" by (simp add: pq_pop_single)
      from buildTree_one(5) r buildTree_one(4) have "h3 = {#?root#}"
        by (simp add: buildLoop_single)
      with buildTree_one(6) have "t = ?root" "h4 = {#}" by (simp_all add: pq_pop_single)
      with buildTree_one(1) tr show ?thesis by simp
    next
      case (buildTree_more r h1 l h2 h3 t h4 old')
      from buildTree_more(3) heap have "h1 = {#}" by (simp add: pq_pop_single)
      with buildTree_more(4) show ?thesis by simp
    next
      case buildTree_undefined
      with root show ?thesis by simp
    qed
  next
    assume res: "res = defined (?st1\<lparr>root := pointer ?root, nodeHeap := {#}, codeMap := [a \<mapsto> ''1'']\<rparr>)"
    have "buildTree ?st1
        (defined (?st1\<lparr>root := pointer ?root, nodeHeap := {#},
                       codeMap := traverseForCodeMap ?root Map.empty []\<rparr>))"
    proof (rule buildTree_one [where r = ?leaf and ?h1.0 = "{#}" and ?h3.0 = "{#?root#}"])
      show "nodeHeap ?st1 \<noteq> {#}" using heap by simp
      show "pq_pop (nodeHeap ?st1) ?leaf {#}" using heap by (simp add: pq_pop_single)
      show "buildLoop (add_mset (CountNode (count_field ?leaf) nullptr ?leaf) {#}) {#?root#}"
        by (simp add: buildLoop_single)
      show "pq_pop {#?root#} ?root {#}" by (simp add: pq_pop_single)
      show "root ?st1 = pointer old" by (rule root)
    qed simp
    with res tr show "buildTree ?st1 res" by simp
  qed
qed

subsection \<open>Encoding and decoding a text of one symbol\<close>

lemma map_of_single:
  assumes "distinct (map fst recs)" and "map_of recs = [a \<mapsto> v]"
  shows "recs = [(a, v)]"
proof -
  have "fst ` set recs = dom (map_of recs)" by (simp add: dom_map_of_conv_image_fst)
  also have "\<dots> = {a}" using assms(2) by simp
  finally have s: "set (map fst recs) = {a}" by simp
  from assms(1) have "card (set (map fst recs)) = length (map fst recs)" by (rule distinct_card)
  with s have "length recs = 1" by simp
  then obtain p where p: "recs = [p]" by (cases recs) auto
  with s assms(2) show ?thesis by (cases p) (auto simp: fun_eq_iff split: if_splits)
qed

lemma export_text_replicate:
  "cm a = Some code \<Longrightarrow>
     export_text cm (replicate n a) out = (out @ concat (replicate n code), cm)"
  by (induction n arbitrary: out) auto

lemma decode_loop_ones:
  "decode_loop [''1'' \<mapsto> a] (replicate n (CHR ''1'')) [] out = (out @ replicate n a, [])"
proof (induction n arbitrary: out)
  case 0
  show ?case by (simp add: decode_loop.simps [of _ "[]"])
next
  case (Suc n)
  let ?m = "[''1'' \<mapsto> a]"
  have "decode_loop ?m (CHR ''1'' # replicate n (CHR ''1'')) [] out =
          decode_loop ?m (replicate n (CHR ''1'')) [] (out @ [a])"
    by (subst decode_loop.simps) (simp add: isspace_def)
  also have "\<dots> = ((out @ [a]) @ replicate n a, [])" by (rule Suc.IH)
  finally show ?case by (simp only: replicate_Suc append_assoc append_Cons append_Nil)
qed

lemma reconstructTree_single:
  assumes "a \<noteq> newline" and "root st = pointer old"
  shows "reconstructTree st (table_text [[a, CHR ''1'']] @ newline # payload) =
           defined (Inr (CountNode 0 nullptr (HuffmanTreeNode a 0 nullptr nullptr),
                st\<lparr>root := (if old = nullptr then pointer nullptr else dangling),
                   codeMap := [a \<mapsto> ''1''], reverseCodeMap := [''1'' \<mapsto> a]\<rparr>, payload))"
proof -
  let ?st0 = "st\<lparr>root := (if old = nullptr then pointer nullptr else dangling),
                  codeMap := Map.empty, reverseCodeMap := Map.empty\<rparr>"
  let ?st1 = "?st0\<lparr>codeMap := (codeMap ?st0)(a \<mapsto> ''1''),
                    reverseCodeMap := (reverseCodeMap ?st0)(''1'' \<mapsto> a)\<rparr>"
  let ?t0 = "CountNode 0 nullptr nullptr"
  let ?rest = "newline # payload"
  let ?input = "a # CHR ''1'' # newline # ?rest"
  have tt: "table_text [[a, CHR ''1'']] @ newline # payload = ?input"
    by (simp add: table_text_def)
  have g1: "getline ?input = Some ([a, CHR ''1''], ?rest)"
    using getline_line [of "[a, CHR ''1'']" ?rest] assms(1) by (simp add: newline_def)
  have g2: "getline ?rest = Some ([], payload)" by simp
  have s: "stoi ''1'' = Inr 1" by (simp add: stoi_def isspace_def isdigit_def)
  have w: "reconstruct_walk ?t0 1 (length ''1'') a = CountNode 0 nullptr (HuffmanTreeNode a 0 nullptr nullptr)"
    by (simp add: reconstruct_walk.simps)
  have "reconstruct_loop ?t0 ?st0 ?input =
          reconstruct_loop (reconstruct_walk ?t0 1 (length ''1'') a) ?st1 ?rest"
    by (subst reconstruct_loop.simps) (simp add: g1 s Let_def del: getline.simps)
  also have "\<dots> = Inr (reconstruct_walk ?t0 1 (length ''1'') a, ?st1, payload)"
    by (subst reconstruct_loop.simps) (simp add: g2 del: getline.simps)
  finally show ?thesis
    unfolding reconstructTree_def tt w assms(2) by simp
qed

lemma encode_single:
  assumes "0 < n" and "nodeHeap st = {#}" and "root st = pointer old"
  shows "encode st (replicate n a) res \<longleftrightarrow>
           res = defined ((countCharFrequencies st (replicate n a))
              \<lparr>root := pointer (CountNode (of_nat n) nullptr (HuffmanTreeNode a (of_nat n) nullptr nullptr)),
               nodeHeap := {#}, codeMap := [a \<mapsto> ''1'']\<rparr>,
             table_text [[a, CHR ''1'']] @ newline # replicate n (CHR ''1''))"
proof -
  let ?content = "replicate n a"
  let ?st2 = "(countCharFrequencies st ?content)
              \<lparr>root := pointer (CountNode (of_nat n) nullptr (HuffmanTreeNode a (of_nat n) nullptr nullptr)),
               nodeHeap := {#}, codeMap := [a \<mapsto> ''1'']\<rparr>"
  let ?out1 = "table_text [[a, CHR ''1'']] @ [newline]"
  have s: "set ?content = {a}" using assms(1) by simp
  have bt: "buildTree (countCharFrequencies st ?content) r \<longleftrightarrow> r = defined ?st2" for r
    using buildTree_single [OF assms(2) s assms(3), of r] by simp
  have ones: "concat (replicate n ''1'') = replicate n (CHR ''1'')"
    by (induction n) simp_all
  have ex: "export_text [a \<mapsto> ''1''] ?content out1 = (out1 @ replicate n (CHR ''1''), [a \<mapsto> ''1''])"
    for out1
    using export_text_replicate [of "[a \<mapsto> ''1'']" a "''1''" n out1] by (simp add: ones)
  have et: "export_table [(a, ''1'')] @ [newline] = ?out1"
    by (simp add: export_table_def table_text_def)
  show ?thesis
  proof
    assume "encode st ?content res"
    then show "res = defined (?st2, table_text [[a, CHR ''1'']] @ newline # replicate n (CHR ''1''))"
    proof (cases rule: encode.cases)
      case (encode_run output0 st2 recs output1 out cm')
      from encode_run(3) have st2: "st2 = ?st2" by (simp only: bt behaviour.inject)
      then have cm: "codeMap st2 = [a \<mapsto> ''1'']" by simp
      from encode_run(4,5) cm have recs: "recs = [(a, ''1'')]" by (simp add: map_of_single)
      from encode_run(2,6) recs et have o1: "output1 = ?out1" by simp
      from encode_run(7) cm o1 ex [of ?out1]
      have "out = ?out1 @ replicate n (CHR ''1'')" "cm' = [a \<mapsto> ''1'']"
        by simp_all
      with encode_run(1) st2 show ?thesis by simp
    next
      case encode_undefined
      then show ?thesis by (simp only: bt behaviour.distinct)
    qed
  next
    assume a: "res = defined (?st2, table_text [[a, CHR ''1'']] @ newline # replicate n (CHR ''1''))"
    have "encode st ?content (defined (?st2\<lparr>codeMap := [a \<mapsto> ''1'']\<rparr>, ?out1 @ replicate n (CHR ''1'')))"
    proof (rule encode_run [where recs = "[(a, ''1'')]" and ?output0.0 = "[]" and ?output1.0 = ?out1])
      show "buildTree (countCharFrequencies st ?content) (defined ?st2)" by (simp only: bt)
      show "?out1 = [] @ export_table [(a, ''1'')] @ [newline]" using et by simp
      show "export_text (codeMap ?st2) ?content ?out1 = (?out1 @ replicate n (CHR ''1''), [a \<mapsto> ''1''])"
        using ex [of ?out1] by simp
    qed simp_all
    with a show "encode st ?content res" by simp
  qed
qed

subsection \<open>Runs of the builder that the counts determine\<close>

lemma count_loop_append: "count_loop acc (xs @ ys) = count_loop (count_loop acc xs) ys"
  by (induction xs arbitrary: acc) simp_all

lemma charCounts_update_new:
  "c \<notin> fst ` set acc \<Longrightarrow> charCounts_update c v acc = acc @ [(c, v)]"
  by (induction acc) auto

lemma charCounts_update_last:
  "c \<notin> fst ` set acc \<Longrightarrow> charCounts_update c v (acc @ [(c, k)]) = acc @ [(c, v)]"
  by (induction acc) auto

lemma map_of_last: "c \<notin> fst ` set acc \<Longrightarrow> map_of (acc @ [(c, k)]) c = Some k"
  by (induction acc) auto

lemma count_loop_replicate_last:
  "c \<notin> fst ` set acc \<Longrightarrow>
     count_loop (acc @ [(c, k)]) (replicate n c) = acc @ [(c, k + of_nat n)]"
proof (induction n arbitrary: k)
  case 0
  then show ?case by simp
next
  case (Suc n)
  have "count_loop (acc @ [(c, k)]) (replicate (Suc n) c) =
          count_loop (charCounts_update c (k + 1) (acc @ [(c, k)])) (replicate n c)"
    by (simp add: map_of_last [OF Suc.prems] del: map_of_append)
  also have "\<dots> = count_loop (acc @ [(c, k + 1)]) (replicate n c)"
    by (simp only: charCounts_update_last [OF Suc.prems])
  also have "\<dots> = acc @ [(c, k + 1 + of_nat n)]" by (rule Suc.IH [OF Suc.prems])
  finally show ?case by (simp add: ac_simps)
qed

lemma count_loop_replicate_new:
  assumes "c \<notin> fst ` set acc"
  shows "count_loop acc (replicate (Suc n) c) = acc @ [(c, of_nat (Suc n))]"
proof -
  from assms have "map_of acc c = None" by (simp add: map_of_eq_None_iff)
  then have "count_loop acc (replicate (Suc n) c) = count_loop (acc @ [(c, 1)]) (replicate n c)"
    using assms by (simp add: charCounts_update_new)
  also have "\<dots> = acc @ [(c, 1 + of_nat n)]" using assms by (rule count_loop_replicate_last)
  finally show ?thesis by simp
qed

lemma pq_pop_unique_min:
  assumes "\<forall>y\<in>#h. wt x < wt y"
  shows "pq_pop (add_mset x h) r h' \<longleftrightarrow> r = x \<and> h' = h"
proof
  assume p: "pq_pop (add_mset x h) r h'"
  then have "r \<in># add_mset x h" and le: "wt r \<le> wt x"
    by (auto simp: pq_pop_def pq_top_def NodeComparison_def wt_def not_less)
  with assms have "r = x" by auto
  with p show "r = x \<and> h' = h" by (simp add: pq_pop_def)
next
  assume "r = x \<and> h' = h"
  then show "pq_pop (add_mset x h) r h'"
    using assms by (auto simp: pq_pop_def pq_top_def NodeComparison_def wt_def)
qed

lemma buildLoop_step_unique:
  assumes "\<forall>z\<in>#add_mset y h. wt x < wt z" and "\<forall>z\<in>#h. wt y < wt z"
  shows "buildLoop (add_mset x (add_mset y h)) h' \<longleftrightarrow>
           buildLoop (add_mset (CountNode (count_field x + count_field y) y x) h) h'"
proof
  assume "buildLoop (add_mset x (add_mset y h)) h'"
  then show "buildLoop (add_mset (CountNode (count_field x + count_field y) y x) h) h'"
  proof (cases rule: buildLoop.cases)
    case buildLoop_exit
    then show ?thesis by simp
  next
    case (buildLoop_step r h1 l h2)
    from buildLoop_step(2) have r: "r = x" "h1 = add_mset y h"
      by (simp_all add: pq_pop_unique_min [OF assms(1)])
    with buildLoop_step(3) have "l = y" "h2 = h"
      by (simp_all add: pq_pop_unique_min [OF assms(2)])
    with r buildLoop_step(4) show ?thesis by simp
  qed
next
  assume b: "buildLoop (add_mset (CountNode (count_field x + count_field y) y x) h) h'"
  have p1: "pq_pop (add_mset x (add_mset y h)) x (add_mset y h)"
    by (simp add: pq_pop_unique_min [OF assms(1)])
  have p2: "pq_pop (add_mset y h) y h"
    by (simp add: pq_pop_unique_min [OF assms(2)])
  show "buildLoop (add_mset x (add_mset y h)) h'"
    by (rule buildLoop_step [OF _ p1 p2 b]) simp
qed

lemma buildTree_total:
  assumes "root st = pointer old"
  shows "\<exists>st'. buildTree st (defined st')"
proof (cases "nodeHeap st = {#}")
  case True
  then show ?thesis by (blast intro: buildTree_empty)
next
  case False
  then obtain r h1 where r: "pq_pop (nodeHeap st) r h1" using pq_pop_exists by blast
  show ?thesis
  proof (cases "h1 = {#}")
    case True
    obtain h3 where l: "buildLoop (add_mset (CountNode (count_field r) nullptr r) h1) h3"
      using buildLoop_total by blast
    then have "size h3 = 1" by (rule buildLoop_size) simp
    then have "h3 \<noteq> {#}" by auto
    then obtain t h4 where "pq_pop h3 t h4" using pq_pop_exists by blast
    from buildTree_one [OF False r True l this assms] show ?thesis by blast
  next
    case h1: False
    then obtain l h2 where l: "pq_pop h1 l h2" using pq_pop_exists by blast
    obtain h3 where b: "buildLoop (add_mset (CountNode (count_field r + count_field l) l r) h2) h3"
      using buildLoop_total by blast
    then have "size h3 = 1" by (rule buildLoop_size) simp
    then have "h3 \<noteq> {#}" by auto
    then obtain t h4 where "pq_pop h3 t h4" using pq_pop_exists by blast
    from buildTree_more [OF False r h1 l b this assms] show ?thesis by blast
  qed
qed

lemma count_loop_replicate_fresh:
  "0 < n \<Longrightarrow> c \<notin> fst ` set acc \<Longrightarrow> count_loop acc (replicate n c) = acc @ [(c, of_nat n)]"
  using count_loop_replicate_new [of c acc "n - 1"] by simp
section \<open>Encoding an empty input\<close>

text \<open>
  Claim C2, as the code has it: on the empty input, \<^verbatim>\<open>encode\<close> does create its output and
  writes exactly one newline to it, the line that ends the table: no table record and no
  payload. It ends normally and leaves the object as it was; the empty input is not
  detected before the output is created. The member \<^verbatim>\<open>root\<close> is not read on this path
  (\<^verbatim>\<open>buildTree\<close> returns on its first line), so this is the only outcome also on the object
  of \<^verbatim>\<open>main\<close>, whose \<^verbatim>\<open>root\<close> is indeterminate.
\<close>

theorem encode_empty_input:
  assumes "nodeHeap st = {#}" and "codeMap st = Map.empty"
  shows "encode st [] res \<longleftrightarrow> res = defined (st, [newline])"
proof
  assume "encode st [] res"
  then show "res = defined (st, [newline])"
  proof (cases rule: encode.cases)
    case (encode_run output0 st2 recs output1 out cm')
    from encode_run(3) assms(1) have st2: "st2 = st"
      by (simp add: countCharFrequencies_Nil buildTree_empty_heap)
    with encode_run(5) assms(2) have "map_of recs = Map.empty" by simp
    then have "recs = []" by (simp only: map_of_eq_empty_iff)
    with encode_run(1,2,6,7) st2 show ?thesis
      by (simp add: export_table_def)
  next
    case encode_undefined
    with assms(1) show ?thesis
      by (simp add: countCharFrequencies_Nil buildTree_empty_heap)
  qed
next
  assume a: "res = defined (st, [newline])"
  have "encode st [] (defined (st\<lparr>codeMap := codeMap st\<rparr>, [newline]))"
    by (rule encode_run [where recs = "[]" and ?output0.0 = "[]" and ?output1.0 = "[newline]"])
       (simp_all add: countCharFrequencies_Nil buildTree_empty_heap assms export_table_def)
  with a show "encode st [] res" by simp
qed

theorem encode_empty_input_witness:
  "encode fresh [] (defined (fresh, [newline]))"
  using encode_empty_input [of fresh "defined (fresh, [newline])"] by (simp add: fresh_def)

text \<open>
  The claim as it is written fails: on the empty input the output is not left untouched,
  it receives a newline.
\<close>

theorem encode_empty_input_counterexample:
  "encode fresh [] (defined (fresh, [newline])) \<and> [newline] \<noteq> ([] :: string)"
proof -
  have "encode fresh [] (defined (fresh\<lparr>codeMap := codeMap fresh\<rparr>, [newline]))"
    by (rule encode_run [where recs = "[]" and ?output0.0 = "[]" and ?output1.0 = "[newline]"])
       (simp_all add: countCharFrequencies_Nil buildTree_empty_heap fresh_def export_table_def)
  then show ?thesis by simp
qed

section \<open>Reconstruction of the tree and decoding\<close>

subsection \<open>The path that a record takes through the tree\<close>

text \<open>
  Claim C3 says that the bits of a record's code are followed in order from the root,
  \<^verbatim>\<open>'0'\<close> to the left and \<^verbatim>\<open>'1'\<close> to the right. The code converts the code string with
  \<^verbatim>\<open>stoi\<close> as a decimal number and follows the binary digits of that number from the lowest
  one. On the table of the three records \<^verbatim>\<open>c0\<close>, \<^verbatim>\<open>b10\<close>, \<^verbatim>\<open>a11\<close> the record \<^verbatim>\<open>b10\<close> goes
  left and then right (ten is 1010 in binary), through the leaf of \<^verbatim>\<open>c\<close>, where the claim
  has it go right and then left; the tree built differs from the one the claim describes.
  The object is the one of \<^verbatim>\<open>main\<close> with a null \<^verbatim>\<open>root\<close>; with the indeterminate \<^verbatim>\<open>root\<close>
  that \<^verbatim>\<open>main\<close> leaves, the first statement of \<^verbatim>\<open>reconstructTree\<close> has no defined behaviour.
\<close>

theorem reconstructTree_ignores_bit_order:
  "reconstructTree value_initialised (table_text [''c0'', ''b10'', ''a11''] @ [newline]) =
     defined (Inr (CountNode 0
            (HuffmanTreeNode (CHR ''c'') 0 nullptr (HuffmanTreeNode (CHR ''b'') 0 nullptr nullptr))
            (CountNode 0 nullptr (HuffmanTreeNode (CHR ''a'') 0 nullptr nullptr)),
          value_initialised
            \<lparr>codeMap := [CHR ''c'' \<mapsto> ''0'', CHR ''b'' \<mapsto> ''10'', CHR ''a'' \<mapsto> ''11''],
             reverseCodeMap := [''0'' \<mapsto> CHR ''c'', ''10'' \<mapsto> CHR ''b'', ''11'' \<mapsto> CHR ''a'']\<rparr>,
          []))
   \<and> follow_code (follow_code (follow_code (CountNode 0 nullptr nullptr) ''0'' (CHR ''c''))
          ''10'' (CHR ''b'')) ''11'' (CHR ''a'') =
       CountNode 0
         (HuffmanTreeNode (CHR ''c'') 0 nullptr nullptr)
         (CountNode 0 (HuffmanTreeNode (CHR ''b'') 0 nullptr nullptr)
                      (HuffmanTreeNode (CHR ''a'') 0 nullptr nullptr))"
  by (simp add: decode_eval)

subsection \<open>A record with an empty code\<close>

lemma getline_single:
  assumes "c \<noteq> newline" and "post = [] \<or> hd post = newline"
  shows "getline (c # post) = Some ([c], tl post)"
proof (cases post)
  case Nil
  then show ?thesis using assms(1) by simp
next
  case (Cons p ps)
  with assms(2) have "p = newline" by simp
  with Cons show ?thesis using assms(1) by simp
qed

lemma reconstruct_loop_throws:
  assumes "\<forall>l\<in>set ls. l \<noteq> [] \<and> newline \<notin> set l" and "c \<noteq> newline"
    and "post = [] \<or> hd post = newline"
  shows "\<exists>e t' st'. reconstruct_loop t st (table_text ls @ c # post) = Inl (e, t', st')"
  using assms(1)
proof (induction ls arbitrary: t st)
  case Nil
  from getline_single [OF assms(2,3)] show ?case
    by (simp add: reconstruct_loop.simps [of t st "c # post"] table_text_def stoi_Nil)
next
  case (Cons l ls)
  then have l: "l \<noteq> []" "newline \<notin> set l" and ls: "\<forall>l\<in>set ls. l \<noteq> [] \<and> newline \<notin> set l"
    by auto
  have tt: "table_text (l # ls) @ c # post = l @ newline # (table_text ls @ c # post)"
    by (simp add: table_text_def)
  have g: "getline (table_text (l # ls) @ c # post) = Some (l, table_text ls @ c # post)"
    unfolding tt using l(2) by (rule getline_line)
  show ?case
  proof (cases "stoi (tl l)")
    case (Inl e)
    then show ?thesis using g l(1)
      by (simp add: reconstruct_loop.simps [of t st "table_text (l # ls) @ c # post"] Let_def)
  next
    case (Inr v)
    let ?st1 = "st\<lparr>codeMap := (codeMap st)(hd l \<mapsto> tl l),
                  reverseCodeMap := (reverseCodeMap st)(tl l \<mapsto> hd l)\<rparr>"
    from Cons.IH [OF ls, of "reconstruct_walk t v (length (tl l)) (hd l)" ?st1]
    obtain e t' st' where
      "reconstruct_loop (reconstruct_walk t v (length (tl l)) (hd l)) ?st1 (table_text ls @ c # post)
         = Inl (e, t', st')"
      by blast
    then show ?thesis using g l(1) Inr
      by (simp add: reconstruct_loop.simps [of t st "table_text (l # ls) @ c # post"] Let_def)
  qed
qed

lemma reconstruct_loop_empty_code:
  assumes "\<forall>l\<in>set ls. l \<noteq> [] \<and> newline \<notin> set l" and "c \<noteq> newline"
    and "post = [] \<or> hd post = newline"
    and "\<forall>l\<in>set ls. \<exists>v. stoi (tl l) = Inr v"
  shows "\<exists>t1 st1. reconstruct_loop t st (table_text ls @ [newline]) = Inr (t1, st1, []) \<and>
           reconstruct_loop t st (table_text ls @ c # post) =
             Inl (invalid_argument, t1,
                  st1\<lparr>codeMap := (codeMap st1)(c \<mapsto> []),
                      reverseCodeMap := (reverseCodeMap st1)([] \<mapsto> c)\<rparr>)"
  using assms(1,4)
proof (induction ls arbitrary: t st)
  case Nil
  have 1: "reconstruct_loop t st (table_text [] @ [newline]) = Inr (t, st, [])"
    by (simp add: reconstruct_loop.simps [of t st "[newline]"] table_text_def)
  from getline_single [OF assms(2,3)]
  have 2: "reconstruct_loop t st (table_text [] @ c # post) =
             Inl (invalid_argument, t,
                  st\<lparr>codeMap := (codeMap st)(c \<mapsto> []),
                     reverseCodeMap := (reverseCodeMap st)([] \<mapsto> c)\<rparr>)"
    by (simp add: reconstruct_loop.simps [of t st "c # post"] table_text_def stoi_Nil)
  from 1 2 show ?case by blast
next
  case (Cons l ls)
  then have l: "l \<noteq> []" "newline \<notin> set l" and ls: "\<forall>l\<in>set ls. l \<noteq> [] \<and> newline \<notin> set l"
    and acc: "\<forall>l\<in>set ls. \<exists>v. stoi (tl l) = Inr v"
    by auto
  from Cons.prems(2) obtain v where v: "stoi (tl l) = Inr v" by auto
  let ?st1 = "st\<lparr>codeMap := (codeMap st)(hd l \<mapsto> tl l),
                reverseCodeMap := (reverseCodeMap st)(tl l \<mapsto> hd l)\<rparr>"
  let ?t1 = "reconstruct_walk t v (length (tl l)) (hd l)"
  have tt: "table_text (l # ls) @ rest = l @ newline # (table_text ls @ rest)" for rest
    by (simp add: table_text_def)
  have g: "getline (table_text (l # ls) @ rest) = Some (l, table_text ls @ rest)" for rest
    unfolding tt using l(2) by (rule getline_line)
  have step: "reconstruct_loop t st (table_text (l # ls) @ rest) =
                reconstruct_loop ?t1 ?st1 (table_text ls @ rest)" for rest
    using g [of rest] l(1) v
    by (simp add: reconstruct_loop.simps [of t st "table_text (l # ls) @ rest"] Let_def)
  from Cons.IH [OF ls acc, of ?t1 ?st1] show ?case
    unfolding step [of "[newline]"] step [of "c # post"] .
qed

text \<open>
  Claim C4, as the code has it, on an object whose \<^verbatim>\<open>root\<close> holds a pointer: when the table
  holds a record whose code is empty (a line of one character), \<^verbatim>\<open>decode\<close> is ended by an
  exception of \<^verbatim>\<open>stoi\<close> that nothing catches, and nothing is written to the output. When
  \<^verbatim>\<open>stoi\<close> accepts the codes of all the records before it, the exception is
  \<^verbatim>\<open>std::invalid_argument\<close>, raised at that record after the record has been entered in both
  maps; the tree under construction and the maps are then those that \<^verbatim>\<open>reconstructTree\<close>
  makes of the records before it, with that record added to the maps.
\<close>

theorem decode_empty_code_record:
  assumes "\<forall>l\<in>set ls. l \<noteq> [] \<and> newline \<notin> set l" and "c \<noteq> newline"
    and "post = [] \<or> hd post = newline" and "root st = pointer old"
  shows "\<exists>e t' st'. decode st (table_text ls @ c # post) = defined (Inl (e, t', st'), []) \<and>
           ((\<forall>l\<in>set ls. \<exists>v. stoi (tl l) = Inr v) \<longrightarrow>
              e = invalid_argument \<and>
              (\<exists>st1. reconstructTree st (table_text ls @ [newline]) = defined (Inr (t', st1, [])) \<and>
                 st' = st1\<lparr>codeMap := (codeMap st1)(c \<mapsto> []),
                           reverseCodeMap := (reverseCodeMap st1)([] \<mapsto> c)\<rparr>))"
proof -
  let ?st0 = "st\<lparr>root := (if old = nullptr then pointer nullptr else dangling),
                  codeMap := Map.empty, reverseCodeMap := Map.empty\<rparr>"
  let ?t0 = "CountNode 0 nullptr nullptr"
  have rt: "reconstructTree st input = defined (reconstruct_loop ?t0 ?st0 input)" for input
    by (simp add: reconstructTree_def assms(4))
  from reconstruct_loop_throws [OF assms(1,2,3), of ?t0 ?st0]
  obtain e t' st' where
    r: "reconstruct_loop ?t0 ?st0 (table_text ls @ c # post) = Inl (e, t', st')"
    by (elim exE)
  have d: "decode st (table_text ls @ c # post) = defined (Inl (e, t', st'), [])"
    by (simp add: decode_def rt r)
  have i: "(\<forall>l\<in>set ls. \<exists>v. stoi (tl l) = Inr v) \<longrightarrow>
        e = invalid_argument \<and>
        (\<exists>st1. reconstructTree st (table_text ls @ [newline]) = defined (Inr (t', st1, [])) \<and>
           st' = st1\<lparr>codeMap := (codeMap st1)(c \<mapsto> []),
                     reverseCodeMap := (reverseCodeMap st1)([] \<mapsto> c)\<rparr>)"
  proof (rule impI)
    assume acc: "\<forall>l\<in>set ls. \<exists>v. stoi (tl l) = Inr v"
    from reconstruct_loop_empty_code [OF assms(1,2,3) acc, of ?t0 ?st0]
    obtain t1 st1 where
      1: "reconstruct_loop ?t0 ?st0 (table_text ls @ [newline]) = Inr (t1, st1, [])"
      and 2: "reconstruct_loop ?t0 ?st0 (table_text ls @ c # post) =
             Inl (invalid_argument, t1,
                  st1\<lparr>codeMap := (codeMap st1)(c \<mapsto> []),
                      reverseCodeMap := (reverseCodeMap st1)([] \<mapsto> c)\<rparr>)"
      by (elim exE conjE)
    from r 2 have e: "e = invalid_argument" and t: "t' = t1"
      and s: "st' = st1\<lparr>codeMap := (codeMap st1)(c \<mapsto> []),
                         reverseCodeMap := (reverseCodeMap st1)([] \<mapsto> c)\<rparr>"
      by simp_all
    from 1 t have "reconstructTree st (table_text ls @ [newline]) = defined (Inr (t', st1, []))"
      by (simp add: rt)
    with e s show "e = invalid_argument \<and>
        (\<exists>st1. reconstructTree st (table_text ls @ [newline]) = defined (Inr (t', st1, [])) \<and>
           st' = st1\<lparr>codeMap := (codeMap st1)(c \<mapsto> []),
                     reverseCodeMap := (reverseCodeMap st1)([] \<mapsto> c)\<rparr>)"
      by (intro conjI exI)
  qed
  from d i show ?thesis by (intro exI conjI)
qed

text \<open>
  On the table of the records \<^verbatim>\<open>a11\<close>, \<^verbatim>\<open>b10\<close>, \<^verbatim>\<open>c0\<close> followed by the record \<^verbatim>\<open>d\<close> with an
  empty code: the tree at the throw is the one made of the three records, in which the
  leaf of \<^verbatim>\<open>c\<close> has replaced the node above the leaf of \<^verbatim>\<open>b\<close>.
\<close>

theorem decode_empty_code_record_witness:
  "\<exists>st'. decode value_initialised
            (table_text [''a11'', ''b10'', ''c0''] @ CHR ''d'' # [newline, newline, CHR ''0'']) =
          defined (Inl (invalid_argument,
                        CountNode 0 (HuffmanTreeNode (CHR ''c'') 0 nullptr nullptr)
                          (CountNode 0 nullptr (HuffmanTreeNode (CHR ''a'') 0 nullptr nullptr)),
                        st'), [])
      \<and> codeMap st' (CHR ''d'') = Some [] \<and> reverseCodeMap st' [] = Some (CHR ''d'')"
proof -
  let ?ls = "[''a11'', ''b10'', ''c0'']"
  let ?post = "[newline, newline, CHR ''0'']"
  let ?t = "CountNode 0 (HuffmanTreeNode (CHR ''c'') 0 nullptr nullptr)
              (CountNode 0 nullptr (HuffmanTreeNode (CHR ''a'') 0 nullptr nullptr))"
  have wf: "\<forall>l\<in>set ?ls. l \<noteq> [] \<and> newline \<notin> set l" by (simp add: newline_def)
  have c: "CHR ''d'' \<noteq> newline" by (simp add: newline_def)
  have p: "?post = [] \<or> hd ?post = newline" by simp
  have r: "root value_initialised = pointer nullptr" by (simp add: value_initialised_def)
  have acc: "\<forall>l\<in>set ?ls. \<exists>v. stoi (tl l) = Inr v"
    by (simp add: stoi_def isspace_def isdigit_def)
  have ev: "reconstructTree value_initialised (table_text ?ls @ [newline]) =
      defined (Inr (?t, value_initialised
        \<lparr>codeMap := [CHR ''a'' \<mapsto> ''11'', CHR ''b'' \<mapsto> ''10'', CHR ''c'' \<mapsto> ''0''],
         reverseCodeMap := [''11'' \<mapsto> CHR ''a'', ''10'' \<mapsto> CHR ''b'', ''0'' \<mapsto> CHR ''c'']\<rparr>, []))"
    by (simp add: decode_eval)
  from decode_empty_code_record [OF wf c p r] acc
  obtain e t' st' st1 where
    d: "decode value_initialised (table_text ?ls @ CHR ''d'' # ?post) = defined (Inl (e, t', st'), [])"
    and e: "e = invalid_argument"
    and t: "reconstructTree value_initialised (table_text ?ls @ [newline]) = defined (Inr (t', st1, []))"
    and s: "st' = st1\<lparr>codeMap := (codeMap st1)(CHR ''d'' \<mapsto> []),
                       reverseCodeMap := (reverseCodeMap st1)([] \<mapsto> CHR ''d'')\<rparr>"
    by blast
  from t ev have t': "t' = ?t" by simp
  from s have m: "codeMap st' (CHR ''d'') = Some []" "reverseCodeMap st' [] = Some (CHR ''d'')"
    by simp_all
  from d e t' m show ?thesis by blast
qed

text \<open>
  The claim as it is written fails: nothing is validated before the tree is changed, and
  no format error is reported. When the exception is raised on the second record, the
  first record is already in the tree and both records are in the maps.
\<close>

theorem decode_empty_code_record_counterexample:
  "decode value_initialised (table_text [''a0'', ''b''] @ [newline] @ ''0'') =
     defined (Inl (invalid_argument,
           CountNode 0 (HuffmanTreeNode (CHR ''a'') 0 nullptr nullptr) nullptr,
           value_initialised\<lparr>codeMap := [CHR ''a'' \<mapsto> ''0'', CHR ''b'' \<mapsto> []],
                 reverseCodeMap := [''0'' \<mapsto> CHR ''a'', [] \<mapsto> CHR ''b'']\<rparr>), [])
   \<and> CountNode 0 (HuffmanTreeNode (CHR ''a'') 0 nullptr nullptr) nullptr \<noteq> CountNode 0 nullptr nullptr"
  by (simp add: decode_eval)

subsection \<open>What the decoded output depends on\<close>

lemma reconstruct_loop_read_table:
  "(case reconstruct_loop t st input of
      Inl thrown \<Rightarrow> \<not> list_all stoi_accepts (fst (read_table input))
    | Inr (t', st', rest) \<Rightarrow>
        list_all stoi_accepts (fst (read_table input)) \<and> rest = snd (read_table input) \<and>
        reverseCodeMap st' = reverse_map_of (fst (read_table input)) (reverseCodeMap st))"
proof (induction t st input rule: reconstruct_loop.induct)
  case (1 local_root st input)
  show ?case
  proof (cases "getline input")
    case None
    then show ?thesis
      by (simp add: reconstruct_loop.simps [of local_root st input] read_table.simps [of input]
            reverse_map_of_def)
  next
    case (Some p)
    obtain line rest where p: "p = (line, rest)" by (cases p)
    show ?thesis
    proof (cases "line = []")
      case True
      then show ?thesis using Some p
        by (simp add: reconstruct_loop.simps [of local_root st input] read_table.simps [of input]
              reverse_map_of_def)
    next
      case False
      let ?st1 = "st\<lparr>codeMap := (codeMap st)(hd line \<mapsto> tl line),
                    reverseCodeMap := (reverseCodeMap st)(tl line \<mapsto> hd line)\<rparr>"
      show ?thesis
      proof (cases "stoi (tl line)")
        case (Inl e)
        then have "\<not> stoi_accepts (hd line, tl line)" by (simp add: stoi_accepts_def)
        then show ?thesis using Some p False Inl
          by (simp add: reconstruct_loop.simps [of local_root st input] read_table.simps [of input]
                Let_def split: prod.splits)
      next
        case (Inr binary)
        from "1.IH" [OF Some p [symmetric] False refl refl refl Inr]
        have IH: "(case reconstruct_loop (reconstruct_walk local_root binary (length (tl line)) (hd line)) ?st1 rest of
            Inl thrown \<Rightarrow> \<not> list_all stoi_accepts (fst (read_table rest))
          | Inr (t', st', rest') \<Rightarrow>
              list_all stoi_accepts (fst (read_table rest)) \<and> rest' = snd (read_table rest) \<and>
              reverseCodeMap st' = reverse_map_of (fst (read_table rest)) (reverseCodeMap ?st1))" .
        have rl: "reconstruct_loop local_root st input =
            reconstruct_loop (reconstruct_walk local_root binary (length (tl line)) (hd line)) ?st1 rest"
          using Some p False Inr
          by (simp add: reconstruct_loop.simps [of local_root st input] Let_def)
        have rt: "read_table input = ((hd line, tl line) # fst (read_table rest), snd (read_table rest))"
          using Some p False
          by (simp add: read_table.simps [of input] split: prod.splits)
        have acc: "stoi_accepts (hd line, tl line)"
          using Inr by (simp add: stoi_accepts_def)
        show ?thesis
          unfolding rl rt using IH acc
          by (simp add: reverse_map_of_def split: sum.splits prod.splits)
      qed
    qed
  qed
qed

text \<open>
  Claim C9 says that two runs of \<^verbatim>\<open>decode\<close> on the same table text and payload give the same
  output. On the object that \<^verbatim>\<open>main\<close> declares this fails: the first statement of
  \<^verbatim>\<open>reconstructTree\<close> evaluates the member \<^verbatim>\<open>root\<close>, which is indeterminate, and the run has no
  defined behaviour, whatever the file holds. On an object whose \<^verbatim>\<open>root\<close> holds a pointer the
  claim is right: the output is determined by the records read literally from the table
  text and by the payload; it is what the decoding loop gives on the payload with the
  reverse map made of those records (nothing, when \<^verbatim>\<open>stoi\<close> rejects the code of a record).
  Neither the tree that the reconstruction builds nor anything else of the object appears
  in it.
\<close>

theorem decode_output_from_table_text:
  "decode fresh content = undefined_behaviour \<and>
   (\<forall>st old. root st = pointer old \<longrightarrow>
      (\<exists>res. decode st content =
         defined (res,
           if list_all stoi_accepts (fst (read_table content))
           then fst (decode_loop (reverse_map_of (fst (read_table content)) Map.empty)
                       (snd (read_table content)) [] [])
           else [])))"
proof (intro conjI allI impI)
  show "decode fresh content = undefined_behaviour"
    by (simp add: decode_def reconstructTree_def fresh_def)
next
  fix st :: HuffmanTree and old
  assume r: "root st = pointer old"
  define st0 where "st0 = st\<lparr>root := (if old = nullptr then pointer nullptr else dangling),
                  codeMap := Map.empty, reverseCodeMap := Map.empty\<rparr>"
  have rt: "reconstructTree st content =
      defined (reconstruct_loop (CountNode 0 nullptr nullptr) st0 content)"
    by (simp add: reconstructTree_def r st0_def)
  have e: "reverseCodeMap st0 = Map.empty" by (simp add: st0_def)
  from reconstruct_loop_read_table
    [where t = "CountNode 0 nullptr nullptr" and input = content and st = st0]
  show "\<exists>res. decode st content =
         defined (res,
           if list_all stoi_accepts (fst (read_table content))
           then fst (decode_loop (reverse_map_of (fst (read_table content)) Map.empty)
                       (snd (read_table content)) [] [])
           else [])"
    by (simp add: decode_def rt e split: sum.splits prod.splits)
qed

theorem decode_output_from_table_text_witness:
  "decode fresh (table_text [''a0'', ''b1''] @ newline # ''0110'') = undefined_behaviour \<and>
   (\<exists>res. decode value_initialised (table_text [''a0'', ''b1''] @ newline # ''0110'') =
      defined (res, ''abba'')) \<and>
   (\<exists>res. decode (value_initialised\<lparr>root := pointer (CountNode 7 nullptr nullptr),
                                     reverseCodeMap := [''0'' \<mapsto> CHR ''z'']\<rparr>)
            (table_text [''a0'', ''b1''] @ newline # ''0110'') =
      defined (res, ''abba''))"
proof -
  let ?c = "table_text [''a0'', ''b1''] @ newline # ''0110''"
  let ?st = "value_initialised\<lparr>root := pointer (CountNode 7 nullptr nullptr),
                              reverseCodeMap := [''0'' \<mapsto> CHR ''z'']\<rparr>"
  have rt: "read_table ?c = ([(CHR ''a'', ''0''), (CHR ''b'', ''1'')], ''0110'')"
    by (simp add: read_table.simps table_text_def newline_def)
  have acc: "list_all stoi_accepts [(CHR ''a'', ''0''), (CHR ''b'', ''1'')]"
    by (simp add: stoi_accepts_def stoi_def isspace_def isdigit_def)
  have dl: "fst (decode_loop (reverse_map_of [(CHR ''a'', ''0''), (CHR ''b'', ''1'')] Map.empty)
               ''0110'' [] []) = ''abba''"
    by (simp add: decode_loop.simps reverse_map_of_def isspace_def)
  have r1: "root value_initialised = pointer nullptr" by (simp add: value_initialised_def)
  have r2: "root ?st = pointer (CountNode 7 nullptr nullptr)" by simp
  note t = decode_output_from_table_text [of ?c]
  from t have 1: "decode fresh ?c = undefined_behaviour" by (rule conjunct1)
  from t r1 have "\<exists>res. decode value_initialised ?c =
         defined (res,
           if list_all stoi_accepts (fst (read_table ?c))
           then fst (decode_loop (reverse_map_of (fst (read_table ?c)) Map.empty)
                       (snd (read_table ?c)) [] [])
           else [])"
    by blast
  then have 2: "\<exists>res. decode value_initialised ?c = defined (res, ''abba'')"
    by (simp only: rt acc dl fst_conv snd_conv if_True)
  from t r2 have "\<exists>res. decode ?st ?c =
         defined (res,
           if list_all stoi_accepts (fst (read_table ?c))
           then fst (decode_loop (reverse_map_of (fst (read_table ?c)) Map.empty)
                       (snd (read_table ?c)) [] [])
           else [])"
    by blast
  then have 3: "\<exists>res. decode ?st ?c = defined (res, ''abba'')"
    by (simp only: rt acc dl fst_conv snd_conv if_True)
  from 1 2 3 show ?thesis by (intro conjI)
qed

subsection \<open>White space in the payload\<close>

lemma decode_loop_filter:
  "decode_loop rcm input binary out = decode_loop rcm (filter (\<lambda>c. \<not> isspace c) input) binary out"
proof (induction rcm input binary out rule: decode_loop.induct)
  case (1 rcm input binary out)
  let ?f = "filter (\<lambda>c. \<not> isspace c)"
  show ?case
  proof (cases "dropWhile isspace input")
    case Nil
    then have "\<forall>c\<in>set input. isspace c" by (simp add: dropWhile_eq_Nil_conv)
    then have "?f input = []" by (simp add: filter_empty_conv)
    then show ?thesis using Nil
      by (simp add: decode_loop.simps [of rcm input] decode_loop.simps [of rcm "[]"]
            del: dropWhile_eq_Nil_conv)
  next
    case (Cons ch rest)
    then have ns: "\<not> isspace ch" using hd_dropWhile [of isspace input] by auto
    have "?f input = ?f (takeWhile isspace input @ dropWhile isspace input)" by simp
    also have "\<dots> = ?f (takeWhile isspace input) @ ?f (ch # rest)" using Cons by simp
    also have "?f (takeWhile isspace input) = []"
      by (simp add: filter_empty_conv) (meson set_takeWhileD)
    finally have f: "?f input = ch # ?f rest" using ns by simp
    have d: "dropWhile isspace (ch # ?f rest) = ch # ?f rest" using ns by simp
    show ?thesis
    proof (cases "rcm (binary @ [ch])")
      case None
      from "1.IH"(1) [OF Cons None] show ?thesis
        using Cons None f d
        by (simp add: decode_loop.simps [of rcm input] decode_loop.simps [of rcm "ch # ?f rest"])
    next
      case (Some c)
      from "1.IH"(2) [OF Cons Some] show ?thesis
        using Cons Some f d
        by (simp add: decode_loop.simps [of rcm input] decode_loop.simps [of rcm "ch # ?f rest"])
    qed
  qed
qed

lemma reconstruct_loop_payload:
  assumes "\<forall>l\<in>set ls. l \<noteq> [] \<and> newline \<notin> set l"
  shows "reconstruct_loop t st (table_text ls @ newline # payload) =
           (case reconstruct_loop t st (table_text ls @ [newline]) of
              Inl thrown \<Rightarrow> Inl thrown
            | Inr (t', st', rest) \<Rightarrow> Inr (t', st', payload))"
  using assms
proof (induction ls arbitrary: t st)
  case Nil
  show ?case
    by (simp add: table_text_def reconstruct_loop.simps [of t st "newline # payload"]
          reconstruct_loop.simps [of t st "[newline]"])
next
  case (Cons l ls)
  then have l: "l \<noteq> []" "newline \<notin> set l" and ls: "\<forall>l\<in>set ls. l \<noteq> [] \<and> newline \<notin> set l"
    by auto
  have tt: "table_text (l # ls) @ rest = l @ newline # (table_text ls @ rest)" for rest
    by (simp add: table_text_def)
  have g: "getline (table_text (l # ls) @ rest) = Some (l, table_text ls @ rest)" for rest
    unfolding tt using l(2) by (rule getline_line)
  show ?case
  proof (cases "stoi (tl l)")
    case (Inl e)
    then show ?thesis using g l(1)
      by (simp add: reconstruct_loop.simps [of t st "table_text (l # ls) @ newline # payload"]
            reconstruct_loop.simps [of t st "table_text (l # ls) @ [newline]"] Let_def)
  next
    case (Inr v)
    then show ?thesis using g l(1) Cons.IH [OF ls]
      by (simp add: reconstruct_loop.simps [of t st "table_text (l # ls) @ newline # payload"]
            reconstruct_loop.simps [of t st "table_text (l # ls) @ [newline]"] Let_def)
  qed
qed

text \<open>
  Claim C10: the extraction \<^verbatim>\<open>input >> ch\<close> skips white space, so the white space in the
  payload and after it (a newline at the end of the file too) never reaches \<^verbatim>\<open>binary\<close>
  and does not change the result: decoding the file is decoding the file with the white
  space taken out of its payload, and the loop gives the same output and the same
  left-over bits.
\<close>

theorem decode_skips_whitespace:
  assumes "\<forall>l\<in>set ls. l \<noteq> [] \<and> newline \<notin> set l"
  shows "decode st (table_text ls @ newline # payload) =
           decode st (table_text ls @ newline # filter (\<lambda>c. \<not> isspace c) payload)
       \<and> decode_loop rcm payload binary out =
           decode_loop rcm (filter (\<lambda>c. \<not> isspace c) payload) binary out"
proof
  let ?t0 = "CountNode 0 nullptr nullptr"
  show "decode st (table_text ls @ newline # payload) =
           decode st (table_text ls @ newline # filter (\<lambda>c. \<not> isspace c) payload)"
  proof (cases "root st")
    case indeterminate
    then show ?thesis by (simp add: decode_def reconstructTree_def)
  next
    case dangling
    then show ?thesis by (simp add: decode_def reconstructTree_def)
  next
    case (pointer old)
    define st0 where "st0 = st\<lparr>root := (if old = nullptr then pointer nullptr else dangling),
                    codeMap := Map.empty, reverseCodeMap := Map.empty\<rparr>"
    have rt: "reconstructTree st input = defined (reconstruct_loop ?t0 st0 input)" for input
      by (simp add: reconstructTree_def pointer st0_def)
    show ?thesis
    proof (cases "reconstruct_loop ?t0 st0 (table_text ls @ [newline])")
      case (Inl thrown)
      have "reconstruct_loop ?t0 st0 (table_text ls @ newline # p) = Inl thrown" for p
        using reconstruct_loop_payload [OF assms, of ?t0 st0 p] Inl by simp
      then show ?thesis
        by (simp add: decode_def rt)
    next
      case (Inr res)
      obtain t' st' rest where res: "res = (t', st', rest)" by (cases res)
      have "reconstruct_loop ?t0 st0 (table_text ls @ newline # p) = Inr (t', st', p)" for p
        using reconstruct_loop_payload [OF assms, of ?t0 st0 p] Inr res by simp
      then show ?thesis
        using decode_loop_filter [of "reverseCodeMap st'" payload "[]" "[]"]
        by (simp add: decode_def rt)
    qed
  qed
next
  show "decode_loop rcm payload binary out =
           decode_loop rcm (filter (\<lambda>c. \<not> isspace c) payload) binary out"
    by (rule decode_loop_filter)
qed

theorem decode_skips_whitespace_witness:
  "decode value_initialised (table_text [''a0'', ''b1''] @ newline # ''01 10'' @ [newline]) =
     decode value_initialised (table_text [''a0'', ''b1''] @ newline # ''0110'')
   \<and> (\<exists>st'. decode value_initialised (table_text [''a0'', ''b1''] @ newline # ''0110'') =
              defined (Inr st', ''abba''))"
proof -
  have f: "filter (\<lambda>c. \<not> isspace c) (''01 10'' @ [newline]) = ''0110''"
    by (simp add: isspace_def newline_def)
  have w: "\<forall>l\<in>set [''a0'', ''b1'']. l \<noteq> [] \<and> newline \<notin> set l"
    by (simp add: newline_def)
  have v: "\<exists>st'. decode value_initialised (table_text [''a0'', ''b1''] @ newline # ''0110'') =
              defined (Inr st', ''abba'')"
    by (simp add: decode_eval)
  from decode_skips_whitespace [OF w, of value_initialised "''01 10'' @ [newline]"]
  have "decode value_initialised (table_text [''a0'', ''b1''] @ newline # ''01 10'' @ [newline]) =
     decode value_initialised (table_text [''a0'', ''b1''] @ newline # ''0110'')"
    unfolding f by (rule conjunct1)
  from this v show ?thesis by (rule conjI)
qed

section \<open>The code table of a built tree\<close>

lemma leaf_paths_prefix: "x \<in> leaf_paths t p \<Longrightarrow> prefix p x"
proof (induction t arbitrary: p)
  case (CountNode c l r)
  then show ?case by (auto dest: append_prefixD)
qed auto

lemma leaf_paths_prefix_free:
  "x \<in> leaf_paths t p \<Longrightarrow> y \<in> leaf_paths t p \<Longrightarrow> prefix x y \<Longrightarrow> x = y"
proof (induction t arbitrary: p)
  case nullptr
  then show ?case by simp
next
  case (HuffmanTreeNode ch c l r)
  then show ?case by simp
next
  case (CountNode c l r)
  have cross: False
    if "prefix (p @ [a]) u" "prefix (p @ [b]) v" "prefix u v \<or> prefix v u" "a \<noteq> b"
    for a b :: char and u v
  proof -
    from that(1) obtain u' where u: "u = p @ a # u'" by (auto simp: prefix_def)
    from that(2) obtain v' where v: "v = p @ b # v'" by (auto simp: prefix_def)
    from that(3,4) show False unfolding u v by (auto simp: prefix_def)
  qed
  from CountNode.prems(1,2) consider
      "x \<in> leaf_paths l (p @ ''0'')" "y \<in> leaf_paths l (p @ ''0'')"
    | "x \<in> leaf_paths r (p @ ''1'')" "y \<in> leaf_paths r (p @ ''1'')"
    | "x \<in> leaf_paths l (p @ ''0'')" "y \<in> leaf_paths r (p @ ''1'')"
    | "x \<in> leaf_paths r (p @ ''1'')" "y \<in> leaf_paths l (p @ ''0'')"
    by auto
  then show ?case
  proof cases
    case 1
    then show ?thesis using CountNode.IH(1) CountNode.prems(3) by blast
  next
    case 2
    then show ?thesis using CountNode.IH(2) CountNode.prems(3) by blast
  next
    case 3
    then have "prefix (p @ ''0'') x" "prefix (p @ ''1'') y" by (auto dest: leaf_paths_prefix)
    with cross [of "CHR ''0''" x "CHR ''1''" y] CountNode.prems(3) show ?thesis by simp
  next
    case 4
    then have "prefix (p @ ''1'') x" "prefix (p @ ''0'') y" by (auto dest: leaf_paths_prefix)
    with cross [of "CHR ''1''" x "CHR ''0''" y] CountNode.prems(3) show ?thesis by simp
  qed
qed

lemma traverseForCodeMap_codes:
  "traverseForCodeMap t cm p a = Some code \<Longrightarrow> cm a = Some code \<or> code \<in> leaf_paths t p"
proof (induction t arbitrary: cm p)
  case nullptr
  then show ?case by simp
next
  case (HuffmanTreeNode ch c l r)
  then show ?case by (simp split: if_splits)
next
  case (CountNode c l r)
  let ?cm1 = "if l \<noteq> nullptr then traverseForCodeMap l cm (p @ ''0'') else cm"
  have cm1: "?cm1 = traverseForCodeMap l cm (p @ ''0'')" by simp
  from CountNode.prems have "traverseForCodeMap r ?cm1 (p @ ''1'') a = Some code"
    by (simp add: Let_def split: if_splits)
  from CountNode.IH(2) [OF this]
  have "?cm1 a = Some code \<or> code \<in> leaf_paths r (p @ ''1'')" .
  then show ?case
  proof
    assume "?cm1 a = Some code"
    then have "traverseForCodeMap l cm (p @ ''0'') a = Some code" by (simp only: cm1)
    from CountNode.IH(1) [OF this] show ?thesis by auto
  qed simp
qed

lemma buildTree_codeMap:
  "buildTree st (defined st') \<Longrightarrow> nodeHeap st \<noteq> {#} \<Longrightarrow>
     \<exists>t. root st' = pointer t \<and> codeMap st' = traverseForCodeMap t Map.empty []"
  by (erule buildTree.cases) simp_all

text \<open>
  Claim C5 (prefix-code invariant): whenever \<^verbatim>\<open>buildTree\<close> has built a tree, two distinct
  codes of the code map derived from it are never a prefix of one another.
\<close>

theorem codeMap_prefix_free:
  assumes "buildTree st (defined st')" and "nodeHeap st \<noteq> {#}"
    and "codeMap st' a = Some c1" and "codeMap st' b = Some c2" and "c1 \<noteq> c2"
  shows "\<not> prefix c1 c2 \<and> \<not> prefix c2 c1"
proof -
  from buildTree_codeMap [OF assms(1,2)]
  obtain t where cm: "codeMap st' = traverseForCodeMap t Map.empty []" by blast
  have "c1 \<in> leaf_paths t []"
    using traverseForCodeMap_codes [of t Map.empty "[]" a c1] assms(3) cm by simp
  moreover have "c2 \<in> leaf_paths t []"
    using traverseForCodeMap_codes [of t Map.empty "[]" b c2] assms(4) cm by simp
  ultimately show ?thesis
    using leaf_paths_prefix_free [of c1 t "[]" c2]
      leaf_paths_prefix_free [of c2 t "[]" c1] assms(5)
    by blast
qed

theorem codeMap_prefix_free_witness:
  "buildTree (countCharFrequencies value_initialised ''abbcccc'') (defined abbcccc_built) \<and>
   codeMap abbcccc_built (CHR ''b'') = Some ''10'' \<and>
   codeMap abbcccc_built (CHR ''a'') = Some ''11'' \<and>
   \<not> prefix ''10'' ''11'' \<and> \<not> prefix ''11'' ''10''"
proof -
  have ne: "nodeHeap (countCharFrequencies value_initialised ''abbcccc'') \<noteq> {#}"
    by (simp add: countCharFrequencies_abbcccc)
  have b: "codeMap abbcccc_built (CHR ''b'') = Some ''10''"
    and a: "codeMap abbcccc_built (CHR ''a'') = Some ''11''"
    by (simp_all add: abbcccc_built_def)
  have "\<not> prefix ''10'' ''11'' \<and> \<not> prefix ''11'' ''10''"
    by (rule codeMap_prefix_free [OF buildTree_abbcccc ne b a]) simp
  with buildTree_abbcccc a b show ?thesis by simp
qed

section \<open>The shape of the trees\<close>

lemma buildTree_full:
  assumes "nodeHeap st = {#}" and "buildTree (countCharFrequencies st content) (defined st')"
    and two: "2 \<le> card (set content)"
  shows "\<exists>t. root st' = pointer t \<and> t \<noteq> nullptr \<and> internal_full t"
proof -
  let ?P = "\<lambda>n. n \<noteq> nullptr \<and> internal_full n"
  let ?st1 = "countCharFrequencies st content"
  have heap: "nodeHeap ?st1 = mset (map (\<lambda>(c, n). HuffmanTreeNode c n nullptr nullptr) (count_loop [] content))"
    using assms(1) by (rule nodeHeap_countCharFrequencies)
  have leaves: "\<forall>n\<in>#nodeHeap ?st1. ?P n" unfolding heap by auto
  have size: "size (nodeHeap ?st1) = card (set content)"
    unfolding heap by (simp add: length_count_loop)
  have step: "?P (CountNode (count_field r + count_field l) l r)" if "?P l" "?P r" for l r
    using that by simp
  from assms(2) show ?thesis
  proof (cases rule: buildTree.cases)
    case buildTree_empty
    with size two show ?thesis by simp
  next
    case (buildTree_one r h1 h3 t h4 old)
    from buildTree_one(3,4) have "size (nodeHeap ?st1) = 1" by (auto dest: pq_pop_size)
    with size two show ?thesis by simp
  next
    case (buildTree_more r h1 l h2 h3 t h4 old)
    from buildTree_more(3,5) have h: "nodeHeap ?st1 = add_mset r (add_mset l h2)"
      by (auto dest: pq_pop_add)
    with leaves have "?P r" "?P l" "\<forall>n\<in>#h2. ?P n" by auto
    then have "\<forall>n\<in>#add_mset (CountNode (count_field r + count_field l) l r) h2. ?P n"
      by simp
    with buildTree_more(6) have "\<forall>n\<in>#h3. ?P n"
      using step by (rule buildLoop_invariant)
    moreover from buildTree_more(7) have "t \<in># h3" by (simp add: pq_pop_def pq_top_def)
    ultimately have "?P t" by blast
    with buildTree_more(1) show ?thesis by simp
  qed
qed

text \<open>
  Claim C6, as the code has it, for the tree builder: when the text has at least two
  distinct symbols, every internal node of the tree that \<^verbatim>\<open>buildTree\<close> leaves in \<^verbatim>\<open>root\<close>
  has both children, and its count is the sum (of 32-bit integers) of their counts. When
  the text has one distinct symbol, the root has a right child only, the leaf, and
  carries the count of that leaf.
\<close>

theorem buildTree_internal_nodes:
  assumes "nodeHeap st = {#}" and "buildTree (countCharFrequencies st content) (defined st')"
  shows "(2 \<le> card (set content) \<longrightarrow> (\<exists>t. root st' = pointer t \<and> internal_full t)) \<and>
         (card (set content) = 1 \<longrightarrow>
            root st' = pointer (CountNode (of_nat (length content)) nullptr
                         (HuffmanTreeNode (hd content) (of_nat (length content)) nullptr nullptr)))"
proof (intro conjI impI)
  assume two: "2 \<le> card (set content)"
  from buildTree_full [OF assms two] show "\<exists>t. root st' = pointer t \<and> internal_full t"
    by blast
next
  assume one: "card (set content) = 1"
  then obtain a where a: "set content = {a}" by (auto simp: card_1_singleton_iff)
  then have ne: "content \<noteq> []" by auto
  with a have hd: "hd content = a" by (cases content) auto
  from ne have h: "nodeHeap (countCharFrequencies st content) \<noteq> {#}"
    using assms(1) by (simp add: nodeHeap_countCharFrequencies count_loop_Nil_iff)
  from assms(2) h obtain old where "root (countCharFrequencies st content) = pointer old"
    by (cases rule: buildTree.cases) simp_all
  then have r: "root st = pointer old" by (simp add: root_countCharFrequencies)
  from assms(2) show "root st' = pointer (CountNode (of_nat (length content)) nullptr
      (HuffmanTreeNode (hd content) (of_nat (length content)) nullptr nullptr))"
    unfolding hd by (simp add: buildTree_single [OF assms(1) a r])
qed

theorem buildTree_internal_nodes_witness:
  "2 \<le> card (set ''abbcccc'') \<and> (\<exists>t. root abbcccc_built = pointer t \<and> internal_full t) \<and>
   card (set ''aaaa'') = 1 \<and>
   root ((countCharFrequencies value_initialised ''aaaa'')
         \<lparr>root := pointer (CountNode 4 nullptr (HuffmanTreeNode (CHR ''a'') 4 nullptr nullptr)),
          nodeHeap := {#}, codeMap := [CHR ''a'' \<mapsto> ''1'']\<rparr>) =
     pointer (CountNode (of_nat (length ''aaaa'')) nullptr
       (HuffmanTreeNode (hd ''aaaa'') (of_nat (length ''aaaa'')) nullptr nullptr))"
proof -
  have c: "2 \<le> card (set ''abbcccc'')" by simp
  have f: "nodeHeap value_initialised = {#}" by (simp add: value_initialised_def fresh_def)
  have r: "root value_initialised = pointer nullptr" by (simp add: value_initialised_def)
  from buildTree_internal_nodes [OF f buildTree_abbcccc] c
  have 1: "\<exists>t. root abbcccc_built = pointer t \<and> internal_full t" by blast
  have s: "set ''aaaa'' = {CHR ''a''}" by simp
  have c1: "card (set ''aaaa'') = 1" by simp
  have b: "buildTree (countCharFrequencies value_initialised ''aaaa'')
      (defined ((countCharFrequencies value_initialised ''aaaa'')
         \<lparr>root := pointer (CountNode 4 nullptr (HuffmanTreeNode (CHR ''a'') 4 nullptr nullptr)),
          nodeHeap := {#}, codeMap := [CHR ''a'' \<mapsto> ''1'']\<rparr>))"
    using buildTree_single [OF f s r] by simp
  from buildTree_internal_nodes [OF f b] c1
  have 2: "root ((countCharFrequencies value_initialised ''aaaa'')
         \<lparr>root := pointer (CountNode 4 nullptr (HuffmanTreeNode (CHR ''a'') 4 nullptr nullptr)),
          nodeHeap := {#}, codeMap := [CHR ''a'' \<mapsto> ''1'']\<rparr>) =
     pointer (CountNode (of_nat (length ''aaaa'')) nullptr
       (HuffmanTreeNode (hd ''aaaa'') (of_nat (length ''aaaa'')) nullptr nullptr))"
    by blast
  from c 1 c1 2 show ?thesis by (intro conjI)
qed

text \<open>
  The claim as it is written fails on a text of one symbol, where the root that the
  builder makes has no left child; and the tree that \<^verbatim>\<open>reconstructTree\<close> makes from the
  table of such a text has the same shape.
\<close>

theorem buildTree_internal_nodes_counterexample:
  "buildTree (countCharFrequencies value_initialised ''aaaa'')
      (defined ((countCharFrequencies value_initialised ''aaaa'')
         \<lparr>root := pointer (CountNode 4 nullptr (HuffmanTreeNode (CHR ''a'') 4 nullptr nullptr)),
          nodeHeap := {#}, codeMap := [CHR ''a'' \<mapsto> ''1'']\<rparr>))
   \<and> \<not> internal_full (CountNode 4 nullptr (HuffmanTreeNode (CHR ''a'') 4 nullptr nullptr))
   \<and> reconstructTree value_initialised (table_text [''a1''] @ [newline]) =
       defined (Inr (CountNode 0 nullptr (HuffmanTreeNode (CHR ''a'') 0 nullptr nullptr),
            value_initialised\<lparr>codeMap := [CHR ''a'' \<mapsto> ''1''],
                              reverseCodeMap := [''1'' \<mapsto> CHR ''a'']\<rparr>, []))
   \<and> \<not> internal_full (CountNode 0 nullptr (HuffmanTreeNode (CHR ''a'') 0 nullptr nullptr))"
proof -
  have f: "nodeHeap value_initialised = {#}" by (simp add: value_initialised_def fresh_def)
  have r: "root value_initialised = pointer nullptr" by (simp add: value_initialised_def)
  have s: "set ''aaaa'' = {CHR ''a''}" by simp
  have 1: "buildTree (countCharFrequencies value_initialised ''aaaa'')
      (defined ((countCharFrequencies value_initialised ''aaaa'')
         \<lparr>root := pointer (CountNode 4 nullptr (HuffmanTreeNode (CHR ''a'') 4 nullptr nullptr)),
          nodeHeap := {#}, codeMap := [CHR ''a'' \<mapsto> ''1'']\<rparr>))"
    using buildTree_single [OF f s r] by simp
  have 2: "reconstructTree value_initialised (table_text [''a1''] @ [newline]) =
       defined (Inr (CountNode 0 nullptr (HuffmanTreeNode (CHR ''a'') 0 nullptr nullptr),
            value_initialised\<lparr>codeMap := [CHR ''a'' \<mapsto> ''1''],
                              reverseCodeMap := [''1'' \<mapsto> CHR ''a'']\<rparr>, []))"
    by (simp add: decode_eval)
  from 1 2 show ?thesis by simp
qed
section \<open>A text of one repeated symbol\<close>

text \<open>
  Claim C7, as the code has it, on objects whose \<^verbatim>\<open>root\<close> holds a pointer: for a non-empty
  text made of one repeated symbol that is not the newline character, \<^verbatim>\<open>encode\<close> has a
  result, and every run of it ends normally with a code map of exactly one entry, with the
  code \<^verbatim>\<open>1\<close> of one bit (the builder puts the only leaf to the right of a new root), and
  writes the record, the empty line and one \<^verbatim>\<open>1\<close> per input character; and \<^verbatim>\<open>decode\<close> on
  that output ends normally and writes the text back.
\<close>

theorem encode_decode_single_symbol:
  assumes "0 < n" and "a \<noteq> newline" and "nodeHeap st = {#}" and "root st = pointer old"
  shows "(\<exists>st' out. encode st (replicate n a) (defined (st', out))) \<and>
         (\<forall>res. encode st (replicate n a) res \<longrightarrow>
            (\<exists>st' out. res = defined (st', out) \<and>
               codeMap st' = [a \<mapsto> ''1''] \<and>
               out = table_text [[a, CHR ''1'']] @ newline # replicate n (CHR ''1'') \<and>
               (\<forall>st2 old2. root st2 = pointer old2 \<longrightarrow>
                  (\<exists>st3. decode st2 out = defined (Inr st3, replicate n a)))))"
proof (intro conjI allI impI)
  show "\<exists>st' out. encode st (replicate n a) (defined (st', out))"
    using encode_single [OF assms(1,3,4), of a] by blast
next
  fix res
  let ?out = "table_text [[a, CHR ''1'']] @ newline # replicate n (CHR ''1'')"
  let ?st' = "(countCharFrequencies st (replicate n a))
              \<lparr>root := pointer (CountNode (of_nat n) nullptr (HuffmanTreeNode a (of_nat n) nullptr nullptr)),
               nodeHeap := {#}, codeMap := [a \<mapsto> ''1'']\<rparr>"
  assume "encode st (replicate n a) res"
  then have res: "res = defined (?st', ?out)"
    by (simp only: encode_single [OF assms(1,3,4)])
  have cm: "codeMap ?st' = [a \<mapsto> ''1'']" by simp
  have dec: "\<forall>st2 old2. root st2 = pointer old2 \<longrightarrow>
                  (\<exists>st3. decode st2 ?out = defined (Inr st3, replicate n a))"
  proof (intro allI impI)
    fix st2 :: HuffmanTree and old2
    assume r: "root st2 = pointer old2"
    have "decode st2 ?out =
        defined (Inr (st2\<lparr>root := (if old2 = nullptr then pointer nullptr else dangling),
                          codeMap := [a \<mapsto> ''1''], reverseCodeMap := [''1'' \<mapsto> a]\<rparr>),
                 replicate n a)"
      unfolding decode_def
      by (simp add: reconstructTree_single [OF assms(2) r] decode_loop_ones)
    then show "\<exists>st3. decode st2 ?out = defined (Inr st3, replicate n a)" by blast
  qed
  show "\<exists>st' out. res = defined (st', out) \<and>
               codeMap st' = [a \<mapsto> ''1''] \<and>
               out = table_text [[a, CHR ''1'']] @ newline # replicate n (CHR ''1'') \<and>
               (\<forall>st2 old2. root st2 = pointer old2 \<longrightarrow>
                  (\<exists>st3. decode st2 out = defined (Inr st3, replicate n a)))"
  proof (intro exI conjI)
    show "res = defined (?st', ?out)" by (rule res)
    show "codeMap ?st' = [a \<mapsto> ''1'']" by (rule cm)
    show "?out = table_text [[a, CHR ''1'']] @ newline # replicate n (CHR ''1'')" by (rule refl)
    show "\<forall>st2 old2. root st2 = pointer old2 \<longrightarrow>
                  (\<exists>st3. decode st2 ?out = defined (Inr st3, replicate n a))"
      by (rule dec)
  qed
qed

theorem encode_decode_single_symbol_witness:
  "\<exists>st' st3. encode value_initialised ''aaaa''
                (defined (st', ''a1'' @ [newline, newline] @ ''1111'')) \<and>
      codeMap st' = [CHR ''a'' \<mapsto> ''1''] \<and>
      decode value_initialised (''a1'' @ [newline, newline] @ ''1111'') = defined (Inr st3, ''aaaa'')"
proof -
  have n: "(0::nat) < 4" by simp
  have a: "CHR ''a'' \<noteq> newline" by (simp add: newline_def)
  have f: "nodeHeap value_initialised = {#}" by (simp add: value_initialised_def fresh_def)
  have p: "root value_initialised = pointer nullptr" by (simp add: value_initialised_def)
  have r: "replicate 4 (CHR ''a'') = ''aaaa''" "replicate 4 (CHR ''1'') = ''1111''"
    by (simp_all add: numeral_eq_Suc)
  have t: "table_text [[CHR ''a'', CHR ''1'']] @ newline # ''1111'' = ''a1'' @ [newline, newline] @ ''1111''"
    by (simp add: table_text_def)
  from encode_decode_single_symbol [OF n a f p, unfolded r t]
  obtain st0 out0 where e: "encode value_initialised ''aaaa'' (defined (st0, out0))"
    and all: "\<forall>res. encode value_initialised ''aaaa'' res \<longrightarrow>
            (\<exists>st' out. res = defined (st', out) \<and>
               codeMap st' = [CHR ''a'' \<mapsto> ''1''] \<and>
               out = ''a1'' @ [newline, newline] @ ''1111'' \<and>
               (\<forall>st2 old2. root st2 = pointer old2 \<longrightarrow>
                  (\<exists>st3. decode st2 out = defined (Inr st3, ''aaaa''))))"
    by blast
  from all e obtain st' out where "defined (st0, out0) = defined (st', out)"
    and c: "codeMap st' = [CHR ''a'' \<mapsto> ''1'']"
    and o: "out = ''a1'' @ [newline, newline] @ ''1111''"
    and d: "\<forall>st2 old2. root st2 = pointer old2 \<longrightarrow>
                  (\<exists>st3. decode st2 out = defined (Inr st3, ''aaaa''))"
    by blast
  then have eq: "st0 = st'" "out0 = out" by simp_all
  from d p obtain st3 where "decode value_initialised out = defined (Inr st3, ''aaaa'')" by blast
  with e c o eq show ?thesis by blast
qed

text \<open>
  The claim as it is written has no exclusion of the newline character, and fails for it:
  the record of a newline symbol starts with an empty line, which ends the table at once,
  so nothing is decoded. And on the object that \<^verbatim>\<open>main\<close> declares, whose \<^verbatim>\<open>root\<close> is
  indeterminate, \<^verbatim>\<open>encode\<close> of a text of one symbol has no defined behaviour.
\<close>

theorem encode_decode_single_symbol_counterexample:
  "encode value_initialised [newline]
     (defined ((countCharFrequencies value_initialised [newline])
        \<lparr>root := pointer (CountNode 1 nullptr (HuffmanTreeNode newline 1 nullptr nullptr)),
         nodeHeap := {#}, codeMap := [newline \<mapsto> ''1'']\<rparr>,
      [newline, CHR ''1'', newline, newline, CHR ''1'']))
   \<and> decode value_initialised [newline, CHR ''1'', newline, newline, CHR ''1''] =
       defined (Inr value_initialised, [])
   \<and> [] \<noteq> [newline]
   \<and> encode fresh ''aaaa'' undefined_behaviour"
proof -
  have n: "(0::nat) < 1" by simp
  have f: "nodeHeap value_initialised = {#}" by (simp add: value_initialised_def fresh_def)
  have p: "root value_initialised = pointer nullptr" by (simp add: value_initialised_def)
  have 1: "encode value_initialised [newline]
     (defined ((countCharFrequencies value_initialised [newline])
        \<lparr>root := pointer (CountNode 1 nullptr (HuffmanTreeNode newline 1 nullptr nullptr)),
         nodeHeap := {#}, codeMap := [newline \<mapsto> ''1'']\<rparr>,
      [newline, CHR ''1'', newline, newline, CHR ''1'']))"
    using encode_single [OF n f p, of newline] by (simp add: table_text_def)
  have 2: "decode value_initialised [newline, CHR ''1'', newline, newline, CHR ''1''] =
       defined (Inr value_initialised, [])"
    by (simp add: decode_eval)
  have "buildTree (countCharFrequencies fresh ''aaaa'') undefined_behaviour"
    by (rule buildTree_undefined)
       (simp_all add: countCharFrequencies_def fresh_def)
  then have 3: "encode fresh ''aaaa'' undefined_behaviour" by (rule encode_undefined)
  from 1 2 3 show ?thesis by simp
qed

section \<open>Code lengths and frequencies\<close>

subsection \<open>Weights and depths\<close>

lemma depth_inv_single: "m \<le> w \<Longrightarrow> depth_inv {(w, 0)} m"
  by (simp add: depth_inv_def)

lemma depth_inv_extend:
  assumes inv: "depth_inv A wl" and p: "(wr + wl, d) \<in> A"
    and m: "m \<le> wr" and rl: "wr \<le> wl"
  shows "depth_inv (insert (wl, Suc d) (insert (wr, Suc d) A)) m"
proof -
  let ?A = "insert (wl, Suc d) (insert (wr, Suc d) A)"
  from inv have low: "\<And>w k. (w, k) \<in> A \<Longrightarrow> wl \<le> w"
    and par: "\<And>w k. (w, k) \<in> A \<Longrightarrow> k = 0 \<or> (\<exists>w'. (w', k - 1) \<in> A \<and> w + wl \<le> w')"
    and mono: "\<And>w1 d1 w2 d2. (w1, d1) \<in> A \<Longrightarrow> (w2, d2) \<in> A \<Longrightarrow> w1 < w2 \<Longrightarrow> d2 \<le> d1"
    unfolding depth_inv_def by blast+
  have 1: "m \<le> w" if "(w, k) \<in> ?A" for w k
    using that low [of w k] m rl by auto
  have 2: "k = 0 \<or> (\<exists>w'. (w', k - 1) \<in> ?A \<and> w + m \<le> w')" if "(w, k) \<in> ?A" for w k
  proof -
    from that consider "(w, k) = (wl, Suc d)" | "(w, k) = (wr, Suc d)" | "(w, k) \<in> A" by auto
    then show ?thesis
    proof cases
      case 1
      then have "(wr + wl, k - 1) \<in> ?A \<and> w + m \<le> wr + wl" using p m by simp
      then show ?thesis by blast
    next
      case 2
      then have "(wr + wl, k - 1) \<in> ?A \<and> w + m \<le> wr + wl" using p m rl by simp
      then show ?thesis by blast
    next
      case 3
      from par [OF 3] show ?thesis
      proof
        assume "k = 0" then show ?thesis by simp
      next
        assume "\<exists>w'. (w', k - 1) \<in> A \<and> w + wl \<le> w'"
        then obtain w' where "(w', k - 1) \<in> A" "w + wl \<le> w'" by blast
        then have "(w', k - 1) \<in> ?A \<and> w + m \<le> w'" using m rl by simp
        then show ?thesis by blast
      qed
    qed
  qed
  have new_old: "d2 \<le> Suc d" if u: "wu \<le> wl" "wr \<le> wu" and v: "(w2, d2) \<in> A" and lt: "wu < w2"
    for wu w2 d2
  proof -
    from par [OF v] show ?thesis
    proof
      assume "d2 = 0" then show ?thesis by simp
    next
      assume "\<exists>w'. (w', d2 - 1) \<in> A \<and> w2 + wl \<le> w'"
      then obtain w' where w': "(w', d2 - 1) \<in> A" "w2 + wl \<le> w'" by blast
      with lt u have "wr + wl < w'" by simp
      from mono [OF p w'(1) this] show ?thesis by simp
    qed
  qed
  have 3: "d2 \<le> d1" if a: "(w1, d1) \<in> ?A" and b: "(w2, d2) \<in> ?A" and lt: "w1 < w2"
    for w1 d1 w2 d2
  proof -
    from a consider (n1) "d1 = Suc d" "w1 = wl \<or> w1 = wr" | (o1) "(w1, d1) \<in> A" by auto
    then show ?thesis
    proof cases
      case n1
      from b consider (n2) "d2 = Suc d" "w2 = wl \<or> w2 = wr" | (o2) "(w2, d2) \<in> A" by auto
      then show ?thesis
      proof cases
        case n2
        with n1 show ?thesis by simp
      next
        case o2
        have "w1 \<le> wl" "wr \<le> w1" using n1(2) rl by auto
        from new_old [OF this o2 lt] n1(1) show ?thesis by simp
      qed
    next
      case o1
      from b consider (n2) "d2 = Suc d" "w2 = wl \<or> w2 = wr" | (o2) "(w2, d2) \<in> A" by auto
      then show ?thesis
      proof cases
        case n2
        from low [OF o1] n2(2) rl lt show ?thesis by auto
      next
        case o2
        from mono [OF o1 o2 lt] show ?thesis .
      qed
    qed
  qed
  show ?thesis unfolding depth_inv_def using 1 2 3 by blast
qed

subsection \<open>The queue is a frontier of the final tree\<close>

lemma frontier_refine:
  assumes "frontier t k C" and "(CountNode c l r, d) \<in># C"
  shows "frontier t k (C - {#(CountNode c l r, d)#} + {#(l, Suc d), (r, Suc d)#})"
  using assms
proof (induction rule: frontier.induct)
  case (frontier_here t k)
  then have "t = CountNode c l r" "k = d" by simp_all
  moreover have "frontier (CountNode c l r) d ({#(l, Suc d)#} + {#(r, Suc d)#})"
    by (intro frontier_below frontier.frontier_here)
  ultimately show ?case by (simp add: add_mset_commute)
next
  case (frontier_below l' k A r' B c')
  let ?x = "(CountNode c l r, d)"
  let ?N = "{#(l, Suc d), (r, Suc d)#}"
  from frontier_below.prems have "?x \<in># A \<or> ?x \<in># B" by simp
  then show ?case
  proof
    assume x: "?x \<in># A"
    then have "frontier l' (Suc k) (A - {#?x#} + ?N)" by (rule frontier_below.IH(1))
    then have "frontier (CountNode c' l' r') k ((A - {#?x#} + ?N) + B)"
      using frontier_below.hyps(2) by (rule frontier.frontier_below)
    moreover have "(A - {#?x#} + ?N) + B = (A + B) - {#?x#} + ?N"
      using x by (simp add: ac_simps)
    ultimately show ?thesis by simp
  next
    assume x: "?x \<in># B"
    then have "frontier r' (Suc k) (B - {#?x#} + ?N)" by (rule frontier_below.IH(2))
    with frontier_below.hyps(1)
    have "frontier (CountNode c' l' r') k (A + (B - {#?x#} + ?N))"
      by (rule frontier.frontier_below)
    moreover have "A + (B - {#?x#} + ?N) = (A + B) - {#?x#} + ?N"
      using x by (simp add: ac_simps)
    ultimately show ?thesis by simp
  qed
qed

lemma sum_mset_wt_nonneg: "\<forall>n\<in>#M. 0 \<le> wt n \<Longrightarrow> 0 \<le> sum_mset (image_mset wt M)"
  by (induction M) auto

lemma pq_pop_least: "pq_pop h x h' \<Longrightarrow> y \<in># h \<Longrightarrow> wt x \<le> wt y"
  by (auto simp: pq_pop_def pq_top_def NodeComparison_def wt_def not_less)

lemma wt_CountNode_sum:
  assumes "0 \<le> wt r" and "0 \<le> wt l" and "wt r + wt l < 2 ^ 31"
  shows "wt (CountNode (count_field r + count_field l) l r) = wt r + wt l"
proof -
  have "sint (count_field r + count_field l) =
          signed_take_bit 31 (sint (count_field r) + sint (count_field l))"
    by (simp add: sint_word_ariths)
  also have "\<dots> = sint (count_field r) + sint (count_field l)"
    using assms by (intro signed_take_bit_int_eq_self) (simp_all add: wt_def)
  finally show ?thesis by (simp add: wt_def)
qed

lemma buildLoop_frontier:
  assumes "buildLoop h h'"
  shows "h' = {#t#} \<Longrightarrow> (\<forall>n\<in>#h. 0 \<le> wt n) \<Longrightarrow> sum_mset (image_mset wt h) < 2 ^ 31 \<Longrightarrow>
         (\<forall>n\<in>#h. m \<le> wt n) \<Longrightarrow>
         \<exists>C A. frontier t 0 C \<and> image_mset fst C = h \<and>
               (\<forall>x\<in>#C. (wt (fst x), snd x) \<in> A) \<and> depth_inv A m"
  using assms
proof (induction arbitrary: m rule: buildLoop.induct)
  case (buildLoop_exit h)
  let ?C = "{#(t, 0::nat)#}"
  have "frontier t 0 ?C" by (rule frontier_here)
  moreover have "image_mset fst ?C = h" using buildLoop_exit.prems(1) by simp
  moreover have "\<forall>x\<in>#?C. (wt (fst x), snd x) \<in> {(wt t, 0)}" by simp
  moreover have "depth_inv {(wt t, 0)} m"
    using buildLoop_exit.prems(1,4) by (intro depth_inv_single) simp
  ultimately show ?case by blast
next
  case (buildLoop_step h r h1 l h2 h')
  let ?p = "CountNode (count_field r + count_field l) l r"
  from buildLoop_step.hyps(2,3) have h: "h = add_mset r (add_mset l h2)"
    and h1: "h1 = add_mset l h2"
    by (auto dest: pq_pop_add)
  have rl: "wt r \<le> wt l" using pq_pop_least [OF buildLoop_step.hyps(2)] h by simp
  have l2: "\<forall>n\<in>#h2. wt l \<le> wt n" using pq_pop_least [OF buildLoop_step.hyps(3)] h1 by simp
  have nn: "0 \<le> wt r" "0 \<le> wt l" "\<forall>n\<in>#h2. 0 \<le> wt n"
    using buildLoop_step.prems(2) h by simp_all
  have s2: "0 \<le> sum_mset (image_mset wt h2)" using nn(3) by (rule sum_mset_wt_nonneg)
  have sum: "wt r + wt l + sum_mset (image_mset wt h2) < 2 ^ 31"
    using buildLoop_step.prems(3) h by (simp add: ac_simps)
  with s2 have "wt r + wt l < 2 ^ 31" by linarith
  with nn have wp: "wt ?p = wt r + wt l" by (intro wt_CountNode_sum)
  have m: "m \<le> wt r" using buildLoop_step.prems(4) h by simp
  have a1: "\<forall>n\<in>#add_mset ?p h2. 0 \<le> wt n" using nn wp by simp
  have a2: "sum_mset (image_mset wt (add_mset ?p h2)) < 2 ^ 31" using sum wp by simp
  have a3: "\<forall>n\<in>#add_mset ?p h2. wt l \<le> wt n" using l2 wp nn by simp
  from buildLoop_step.IH [OF buildLoop_step.prems(1) a1 a2 a3]
  obtain C A where C: "frontier t 0 C" and img: "image_mset fst C = add_mset ?p h2"
    and CA: "\<forall>x\<in>#C. (wt (fst x), snd x) \<in> A" and inv: "depth_inv A (wt l)"
    by blast
  have "?p \<in># image_mset fst C" using img by simp
  then obtain x where x: "x \<in># C" "fst x = ?p" by auto
  define d where "d = snd x"
  have xd: "x = (?p, d)" using x(2) d_def by (cases x) simp
  with x(1) have pd: "(?p, d) \<in># C" by simp
  let ?C = "C - {#(?p, d)#} + {#(l, Suc d), (r, Suc d)#}"
  let ?A = "insert (wt l, Suc d) (insert (wt r, Suc d) A)"
  have f: "frontier t 0 ?C" using C pd by (rule frontier_refine)
  have "image_mset fst (C - {#(?p, d)#}) = image_mset fst C - image_mset fst {#(?p, d)#}"
    using pd by (intro image_mset_Diff) simp
  then have i: "image_mset fst ?C = h" using img h by simp
  have ca: "\<forall>x\<in>#?C. (wt (fst x), snd x) \<in> ?A"
  proof
    fix y assume "y \<in># ?C"
    then have "y \<in># C - {#(?p, d)#} \<or> y = (l, Suc d) \<or> y = (r, Suc d)" by auto
    then show "(wt (fst y), snd y) \<in> ?A" using CA by (auto dest: in_diffD)
  qed
  have "(wt r + wt l, d) \<in> A" using CA pd wp by force
  with inv have "depth_inv ?A m" using m rl by (rule depth_inv_extend)
  with f i ca show ?case by blast
qed

subsection \<open>Depths are code lengths, weights are frequencies\<close>

lemma traverseForCodeMap_CountNode:
  "traverseForCodeMap (CountNode c l r) cm p =
     traverseForCodeMap r (traverseForCodeMap l cm (p @ ''0'')) (p @ ''1'')"
  by (cases "l = nullptr"; cases "r = nullptr") simp_all

lemma frontier_codes:
  assumes "frontier t d C"
    and "\<forall>x\<in>#C. \<exists>a w. fst x = HuffmanTreeNode a w nullptr nullptr"
    and "traverseForCodeMap t cm p a = Some code"
  shows "cm a = Some code \<or>
         (\<exists>w k. (HuffmanTreeNode a w nullptr nullptr, k) \<in># C \<and> length code + d = length p + k)"
  using assms
proof (induction arbitrary: cm p rule: frontier.induct)
  case (frontier_here t d)
  then obtain a' w where t: "t = HuffmanTreeNode a' w nullptr nullptr" by auto
  show ?case
  proof (cases "a = a'")
    case True
    with frontier_here.prems(2) t have "code = p" by simp
    with True t show ?thesis by auto
  next
    case False
    with frontier_here.prems(2) t show ?thesis by simp
  qed
next
  case (frontier_below l d A r B c)
  let ?cm1 = "traverseForCodeMap l cm (p @ ''0'')"
  from frontier_below.prems(1) have lA: "\<forall>x\<in>#A. \<exists>a w. fst x = HuffmanTreeNode a w nullptr nullptr"
    and lB: "\<forall>x\<in>#B. \<exists>a w. fst x = HuffmanTreeNode a w nullptr nullptr" by auto
  from frontier_below.prems(2)
  have "traverseForCodeMap r ?cm1 (p @ ''1'') a = Some code"
    by (simp only: traverseForCodeMap_CountNode)
  from frontier_below.IH(2) [OF lB this]
  have "?cm1 a = Some code \<or>
      (\<exists>w k. (HuffmanTreeNode a w nullptr nullptr, k) \<in># B \<and> length code + Suc d = length (p @ ''1'') + k)" .
  then show ?case
  proof
    assume "?cm1 a = Some code"
    from frontier_below.IH(1) [OF lA this]
    have "cm a = Some code \<or>
      (\<exists>w k. (HuffmanTreeNode a w nullptr nullptr, k) \<in># A \<and> length code + Suc d = length (p @ ''0'') + k)" .
    then show ?thesis by auto
  next
    assume "\<exists>w k. (HuffmanTreeNode a w nullptr nullptr, k) \<in># B \<and> length code + Suc d = length (p @ ''1'') + k"
    then show ?thesis by auto
  qed
qed

lemma count_loop_entry:
  assumes "(c, v) \<in> set (count_loop [] content)"
  shows "v = of_nat (count_list content c) \<and> c \<in> set content"
proof -
  have "distinct (map fst (count_loop [] content))" by (simp add: distinct_count_loop)
  with assms have "map_of (count_loop [] content) c = Some v" by simp
  then show ?thesis by (simp add: map_of_count_loop split: if_splits)
qed

lemma sint_of_nat_small: "n < 2 ^ 31 \<Longrightarrow> sint (of_nat n :: 32 word) = int n"
proof -
  assume n: "n < 2 ^ 31"
  have "sint (of_nat n :: 32 word) = signed_take_bit 31 (int n)"
    by (simp add: signed_of_nat)
  also have "\<dots> = int n"
    using n by (intro signed_take_bit_int_eq_self) simp_all
  finally show ?thesis .
qed

lemma wt_leaf:
  assumes "length content < 2 ^ 31" and "(c, v) \<in> set (count_loop [] content)"
  shows "wt (HuffmanTreeNode c v nullptr nullptr) = int (count_list content c)"
proof -
  have "count_list content c \<le> length content" by (rule count_le_length)
  with assms(1) have "count_list content c < 2 ^ 31" by simp
  then show ?thesis using count_loop_entry [OF assms(2)] by (simp add: wt_def sint_of_nat_small)
qed

lemma sum_wt_leaves:
  assumes "length content < 2 ^ 31"
  shows "sum_mset (image_mset wt
           (mset (map (\<lambda>(c, n). HuffmanTreeNode c n nullptr nullptr) (count_loop [] content))))
         = int (length content)"
proof -
  let ?xs = "count_loop [] content"
  have d: "distinct (map fst ?xs)" by (simp add: distinct_count_loop)
  have "sum_mset (image_mset wt (mset (map g ys))) = sum_list (map (\<lambda>x. wt (g x)) ys)"
    for g :: "char \<times> 32 word \<Rightarrow> CountNode" and ys
    by (induction ys) simp_all
  then have "sum_mset (image_mset wt (mset (map (\<lambda>(c, n). HuffmanTreeNode c n nullptr nullptr) ?xs)))
      = sum_list (map (\<lambda>x. wt (case x of (c, n) \<Rightarrow> HuffmanTreeNode c n nullptr nullptr)) ?xs)" .
  also have "\<dots> = sum_list (map (\<lambda>x. int (count_list content (fst x))) ?xs)"
    by (rule arg_cong [where f = sum_list], rule map_cong [OF refl])
       (auto simp: wt_leaf [OF assms])
  also have "\<dots> = sum_list (map (\<lambda>c. int (count_list content c)) (map fst ?xs))"
    by (simp add: comp_def)
  also have "\<dots> = sum (\<lambda>c. int (count_list content c)) (set (map fst ?xs))"
    using d by (rule sum_list_distinct_conv_sum_set)
  also have "\<dots> = int (sum (count_list content) (set content))"
    by (simp add: fst_set_count_loop)
  also have "\<dots> = int (length content)"
    by (simp add: sum_count_set)
  finally show ?thesis .
qed

subsection \<open>A count that overflows\<close>

lemma count_loop_overflow_text:
  "count_loop [] overflow_text = [(CHR ''a'', 2147483648), (CHR ''b'', 1), (CHR ''c'', 2)]"
proof -
  have "count_loop [] (replicate (2 ^ 31) (CHR ''a'')) = [] @ [(CHR ''a'', of_nat (2 ^ 31))]"
    by (rule count_loop_replicate_fresh) simp_all
  then have "count_loop [] (replicate (2 ^ 31) (CHR ''a'')) = [(CHR ''a'', 2147483648)]"
    by simp
  then show ?thesis
    unfolding overflow_text_def by (simp only: count_loop_append) simp
qed

lemma buildTree_overflow:
  "buildTree (countCharFrequencies value_initialised overflow_text) (defined overflow_built)"
proof -
  let ?a = "HuffmanTreeNode (CHR ''a'') 2147483648 nullptr nullptr"
  let ?b = "HuffmanTreeNode (CHR ''b'') 1 nullptr nullptr"
  let ?c = "HuffmanTreeNode (CHR ''c'') 2 nullptr nullptr"
  let ?n = "CountNode 2147483649 ?b ?a"
  let ?st = "value_initialised\<lparr>nodeHeap := {#?a, ?b, ?c#}\<rparr>"
  have st: "countCharFrequencies value_initialised overflow_text = ?st"
    by (simp add: countCharFrequencies_def count_loop_overflow_text value_initialised_def fresh_def)
  have p1: "pq_pop (nodeHeap ?st) ?a {#?b, ?c#}" by (rule pq_pop_min) simp_all
  have p2: "pq_pop {#?b, ?c#} ?b {#?c#}" by (rule pq_pop_min) simp_all
  have p3: "pq_pop {#?n, ?c#} ?n {#?c#}" by (rule pq_pop_min) simp_all
  have p4: "pq_pop {#?c#} ?c {#}" by (rule pq_pop_min) simp_all
  have p5: "pq_pop {#overflow_root#} overflow_root {#}" by (rule pq_pop_min) simp_all
  have l2: "buildLoop {#overflow_root#} {#overflow_root#}" by (rule buildLoop_exit) simp
  have l2': "buildLoop (add_mset (CountNode (count_field ?n + count_field ?c) ?c ?n) {#}) {#overflow_root#}"
    using l2 by (simp add: overflow_root_def)
  have l1: "buildLoop {#?n, ?c#} {#overflow_root#}"
    by (rule buildLoop_step [OF _ p3 p4 l2']) simp
  have l0: "buildLoop (add_mset (CountNode (count_field ?a + count_field ?b) ?b ?a) {#?c#}) {#overflow_root#}"
    using l1 by simp
  have r: "root ?st = pointer nullptr" by (simp add: value_initialised_def)
  have "buildTree ?st
     (defined (?st\<lparr>root := pointer overflow_root, nodeHeap := {#},
           codeMap := traverseForCodeMap overflow_root Map.empty []\<rparr>))"
    by (rule buildTree_more [OF _ p1 _ p2 l0 p5 r]) simp_all
  moreover have "?st\<lparr>root := pointer overflow_root, nodeHeap := {#},
           codeMap := traverseForCodeMap overflow_root Map.empty []\<rparr> = overflow_built"
    by (simp add: overflow_built_def overflow_root_def fresh_def value_initialised_def)
  ultimately show ?thesis by (simp only: st)
qed

lemma count_list_replicate_self: "count_list (replicate n x) x = n"
  by (induction n) simp_all

subsection \<open>Code lengths\<close>

text \<open>
  Claim C8 (code length monotonicity), as the code has it: in the code map that
  \<^verbatim>\<open>buildTree\<close> derives from the frequencies of a text shorter than \<open>2 ^ 31\<close> bytes, a symbol
  that occurs strictly more often than another one has a code that is not longer,
  whichever nodes the priority queue picks among equal counts. The bound on the length is
  what keeps the counts, which are of type \<^verbatim>\<open>int\<close>, and their sums from overflowing.
\<close>

theorem code_length_monotone:
  assumes heap: "nodeHeap st = {#}" and len: "length content < 2 ^ 31"
    and bt: "buildTree (countCharFrequencies st content) (defined st')"
    and ca: "codeMap st' a = Some ca" and cb: "codeMap st' b = Some cb"
    and lt: "count_list content b < count_list content a"
  shows "length ca \<le> length cb"
proof -
  let ?leaf = "\<lambda>(c, n). HuffmanTreeNode c n nullptr nullptr"
  let ?xs = "count_loop [] content"
  let ?st1 = "countCharFrequencies st content"
  have h0: "nodeHeap ?st1 = mset (map ?leaf ?xs)"
    using heap by (rule nodeHeap_countCharFrequencies)
  have leaves: "\<exists>c v. n = HuffmanTreeNode c v nullptr nullptr \<and> (c, v) \<in> set ?xs"
    if "n \<in># nodeHeap ?st1" for n
    using that unfolding h0 by auto
  have wt_of: "wt (HuffmanTreeNode c v nullptr nullptr) = int (count_list content c)"
    if "HuffmanTreeNode c v nullptr nullptr \<in># nodeHeap ?st1" for c v
    using leaves [OF that] wt_leaf [OF len] by auto
  have nonneg: "\<forall>n\<in>#nodeHeap ?st1. 0 \<le> wt n"
  proof
    fix n assume "n \<in># nodeHeap ?st1"
    from leaves [OF this] obtain c v where "n = HuffmanTreeNode c v nullptr nullptr" "(c, v) \<in> set ?xs"
      by blast
    then show "0 \<le> wt n" using wt_leaf [OF len] by simp
  qed
  have total: "sum_mset (image_mset wt (nodeHeap ?st1)) < 2 ^ 31"
    unfolding h0 sum_wt_leaves [OF len] using len by simp
  from bt show ?thesis
  proof (cases rule: buildTree.cases)
    case buildTree_empty
    then have "?xs = []" unfolding h0 by simp
    then have "content = []" by (simp add: count_loop_Nil_iff)
    with lt show ?thesis by simp
  next
    case (buildTree_one r h1 h3 t h4 old)
    from buildTree_one(3,4) have "nodeHeap ?st1 = {#r#}" by (auto dest: pq_pop_add)
    with leaves [of r] obtain c v where r: "r = HuffmanTreeNode c v nullptr nullptr" by auto
    from buildTree_one(4,5) have "h3 = {#CountNode (count_field r) nullptr r#}"
      by (simp add: buildLoop_single)
    with buildTree_one(6) have "t = CountNode (count_field r) nullptr r"
      by (simp add: pq_pop_single)
    with buildTree_one(1) r have "codeMap st' = [c \<mapsto> ''1'']" by simp
    with ca cb have "a = c" "b = c" by (auto split: if_splits)
    with lt show ?thesis by simp
  next
    case (buildTree_more r h1 l h2 h3 t h4 old)
    from buildTree_more(3,5) have h: "nodeHeap ?st1 = add_mset r (add_mset l h2)"
      by (auto dest: pq_pop_add)
    then have "1 < size (nodeHeap ?st1)" by simp
    then have loop: "buildLoop (nodeHeap ?st1) h3"
      using buildTree_more(3,5,6) by (rule buildLoop_step)
    have "size h3 = 1" using loop buildTree_more(2) by (rule buildLoop_size)
    moreover have "h3 = add_mset t h4" using buildTree_more(7) by (rule pq_pop_add)
    ultimately have h3: "h3 = {#t#}" by simp
    have low: "\<forall>n\<in>#nodeHeap ?st1. 0 \<le> wt n" by (rule nonneg)
    from buildLoop_frontier [OF loop h3 nonneg total low]
    obtain C A where C: "frontier t 0 C" and img: "image_mset fst C = nodeHeap ?st1"
      and CA: "\<forall>x\<in>#C. (wt (fst x), snd x) \<in> A" and inv: "depth_inv A 0"
      by blast
    have inC: "fst x \<in># nodeHeap ?st1" if "x \<in># C" for x
      using that img by (metis image_eqI in_image_mset)
    have Cl: "\<forall>x\<in>#C. \<exists>a w. fst x = HuffmanTreeNode a w nullptr nullptr"
      using inC leaves by blast
    have cm: "codeMap st' = traverseForCodeMap t Map.empty []"
      using buildTree_more(1) by simp
    have depth: "\<exists>k. (int (count_list content x), k) \<in> A \<and> length code = k"
      if "codeMap st' x = Some code" for x code
    proof -
      from that have "traverseForCodeMap t Map.empty [] x = Some code" by (simp add: cm)
      from frontier_codes [OF C Cl this]
      obtain w k where wk: "(HuffmanTreeNode x w nullptr nullptr, k) \<in># C" "length code = k"
        by auto
      from inC [OF wk(1)] have "wt (HuffmanTreeNode x w nullptr nullptr) = int (count_list content x)"
        by (simp add: wt_of)
      with CA wk(1) have "(int (count_list content x), k) \<in> A" by force
      with wk(2) show ?thesis by blast
    qed
    from depth [OF ca] have A1: "(int (count_list content a), length ca) \<in> A" by blast
    from depth [OF cb] have A2: "(int (count_list content b), length cb) \<in> A" by blast
    from inv have "\<And>w1 d1 w2 d2. (w1, d1) \<in> A \<Longrightarrow> (w2, d2) \<in> A \<Longrightarrow> w1 < w2 \<Longrightarrow> d2 \<le> d1"
      unfolding depth_inv_def by blast
    from this [OF A2 A1] lt show ?thesis by simp
  qed
qed

theorem code_length_monotone_witness:
  "count_list ''abbcccc'' (CHR ''b'') < count_list ''abbcccc'' (CHR ''c'') \<and>
   codeMap abbcccc_built (CHR ''c'') = Some ''0'' \<and>
   codeMap abbcccc_built (CHR ''b'') = Some ''10'' \<and>
   length ''0'' \<le> length ''10''"
proof -
  have f: "nodeHeap value_initialised = {#}" by (simp add: value_initialised_def fresh_def)
  have n: "length ''abbcccc'' < 2 ^ 31" by simp
  have c: "codeMap abbcccc_built (CHR ''c'') = Some ''0''"
    and b: "codeMap abbcccc_built (CHR ''b'') = Some ''10''"
    by (simp_all add: abbcccc_built_def)
  have lt: "count_list ''abbcccc'' (CHR ''b'') < count_list ''abbcccc'' (CHR ''c'')" by simp
  have "length ''0'' \<le> length ''10''"
    by (rule code_length_monotone [OF f n buildTree_abbcccc c b lt])
  with lt c b show ?thesis by (intro conjI)
qed

text \<open>
  The claim as it is written, for every text, fails: in the text of \<open>2 ^ 31\<close> times \<^verbatim>\<open>a\<close>
  followed by \<^verbatim>\<open>bcc\<close> the count of \<^verbatim>\<open>a\<close> has wrapped around to the least \<^verbatim>\<open>int\<close>, its leaf is
  popped first, and \<^verbatim>\<open>a\<close>, the most frequent symbol, gets a code of two bits where \<^verbatim>\<open>c\<close>,
  which occurs twice, has a code of one bit.
\<close>

theorem code_length_monotone_counterexample:
  "buildTree (countCharFrequencies value_initialised overflow_text) (defined overflow_built) \<and>
   count_list overflow_text (CHR ''a'') = 2 ^ 31 \<and>
   count_list overflow_text (CHR ''c'') = 2 \<and>
   codeMap overflow_built (CHR ''a'') = Some ''11'' \<and>
   codeMap overflow_built (CHR ''c'') = Some ''0'' \<and>
   length ''0'' < length ''11''"
proof -
  have 1: "count_list overflow_text (CHR ''a'') = 2 ^ 31"
    and 2: "count_list overflow_text (CHR ''c'') = 2"
    by (simp_all add: overflow_text_def count_list_replicate_self)
  have 3: "codeMap overflow_built (CHR ''a'') = Some ''11''"
    and 4: "codeMap overflow_built (CHR ''c'') = Some ''0''"
    by (simp_all add: overflow_built_def)
  from buildTree_overflow 1 2 3 4 show ?thesis by simp
qed

section \<open>The round trip\<close>

subsection \<open>A text with a code of eleven bits\<close>

lemma count_loop_deep_text:
  "count_loop [] deep_text =
     [(CHR ''a'', 1), (CHR ''b'', 2), (CHR ''c'', 4), (CHR ''d'', 5), (CHR ''e'', 8), (CHR ''f'', 13), (CHR ''g'', 21), (CHR ''h'', 34), (CHR ''i'', 55), (CHR ''j'', 89), (CHR ''k'', 144), (CHR ''l'', 377)]"
  unfolding deep_text_def
  by (simp only: count_loop_append) (simp add: count_loop_replicate_fresh)

lemma buildLoop_deep:
  "buildLoop {#HuffmanTreeNode (CHR ''a'') 1 nullptr nullptr,
       HuffmanTreeNode (CHR ''b'') 2 nullptr nullptr,
       HuffmanTreeNode (CHR ''c'') 4 nullptr nullptr,
       HuffmanTreeNode (CHR ''d'') 5 nullptr nullptr,
       HuffmanTreeNode (CHR ''e'') 8 nullptr nullptr,
       HuffmanTreeNode (CHR ''f'') 13 nullptr nullptr,
       HuffmanTreeNode (CHR ''g'') 21 nullptr nullptr,
       HuffmanTreeNode (CHR ''h'') 34 nullptr nullptr,
       HuffmanTreeNode (CHR ''i'') 55 nullptr nullptr,
       HuffmanTreeNode (CHR ''j'') 89 nullptr nullptr,
       HuffmanTreeNode (CHR ''k'') 144 nullptr nullptr,
       HuffmanTreeNode (CHR ''l'') 377 nullptr nullptr#} h' \<longleftrightarrow> h' = {#deep_root#}"
proof -
  let ?a = "HuffmanTreeNode (CHR ''a'') 1 nullptr nullptr"
  let ?b = "HuffmanTreeNode (CHR ''b'') 2 nullptr nullptr"
  let ?c = "HuffmanTreeNode (CHR ''c'') 4 nullptr nullptr"
  let ?d = "HuffmanTreeNode (CHR ''d'') 5 nullptr nullptr"
  let ?e = "HuffmanTreeNode (CHR ''e'') 8 nullptr nullptr"
  let ?f = "HuffmanTreeNode (CHR ''f'') 13 nullptr nullptr"
  let ?g = "HuffmanTreeNode (CHR ''g'') 21 nullptr nullptr"
  let ?h = "HuffmanTreeNode (CHR ''h'') 34 nullptr nullptr"
  let ?i = "HuffmanTreeNode (CHR ''i'') 55 nullptr nullptr"
  let ?j = "HuffmanTreeNode (CHR ''j'') 89 nullptr nullptr"
  let ?k = "HuffmanTreeNode (CHR ''k'') 144 nullptr nullptr"
  let ?l = "HuffmanTreeNode (CHR ''l'') 377 nullptr nullptr"
  let ?T1 = "CountNode 3 ?b ?a"
  let ?T2 = "CountNode 7 ?c ?T1"
  let ?T3 = "CountNode 12 ?T2 ?d"
  let ?T4 = "CountNode 20 ?T3 ?e"
  let ?T5 = "CountNode 33 ?T4 ?f"
  let ?T6 = "CountNode 54 ?T5 ?g"
  let ?T7 = "CountNode 88 ?T6 ?h"
  let ?T8 = "CountNode 143 ?T7 ?i"
  let ?T9 = "CountNode 232 ?T8 ?j"
  let ?T10 = "CountNode 376 ?T9 ?k"
  let ?T11 = "CountNode 753 ?l ?T10"
  have a1: "\<forall>z\<in>#add_mset ?b {#?c, ?d, ?e, ?f, ?g, ?h, ?i, ?j, ?k, ?l#}. wt ?a < wt z" by (simp add: wt_def)
  have b1: "\<forall>z\<in>#{#?c, ?d, ?e, ?f, ?g, ?h, ?i, ?j, ?k, ?l#}. wt ?b < wt z" by (simp add: wt_def)
  have c1: "count_field ?a + count_field ?b = 3" by simp
  have s1: "buildLoop {#?a, ?b, ?c, ?d, ?e, ?f, ?g, ?h, ?i, ?j, ?k, ?l#} h' \<longleftrightarrow> buildLoop {#?T1, ?c, ?d, ?e, ?f, ?g, ?h, ?i, ?j, ?k, ?l#} h'"
    using buildLoop_step_unique [OF a1 b1, of h'] unfolding c1 .
  have a2: "\<forall>z\<in>#add_mset ?c {#?d, ?e, ?f, ?g, ?h, ?i, ?j, ?k, ?l#}. wt ?T1 < wt z" by (simp add: wt_def)
  have b2: "\<forall>z\<in>#{#?d, ?e, ?f, ?g, ?h, ?i, ?j, ?k, ?l#}. wt ?c < wt z" by (simp add: wt_def)
  have c2: "count_field ?T1 + count_field ?c = 7" by simp
  have s2: "buildLoop {#?T1, ?c, ?d, ?e, ?f, ?g, ?h, ?i, ?j, ?k, ?l#} h' \<longleftrightarrow> buildLoop {#?T2, ?d, ?e, ?f, ?g, ?h, ?i, ?j, ?k, ?l#} h'"
    using buildLoop_step_unique [OF a2 b2, of h'] unfolding c2 .
  have a3: "\<forall>z\<in>#add_mset ?T2 {#?e, ?f, ?g, ?h, ?i, ?j, ?k, ?l#}. wt ?d < wt z" by (simp add: wt_def)
  have b3: "\<forall>z\<in>#{#?e, ?f, ?g, ?h, ?i, ?j, ?k, ?l#}. wt ?T2 < wt z" by (simp add: wt_def)
  have c3: "count_field ?d + count_field ?T2 = 12" by simp
  have s3: "buildLoop {#?d, ?T2, ?e, ?f, ?g, ?h, ?i, ?j, ?k, ?l#} h' \<longleftrightarrow> buildLoop {#?T3, ?e, ?f, ?g, ?h, ?i, ?j, ?k, ?l#} h'"
    using buildLoop_step_unique [OF a3 b3, of h'] unfolding c3 .
  have w3: "{#?T2, ?d, ?e, ?f, ?g, ?h, ?i, ?j, ?k, ?l#} = {#?d, ?T2, ?e, ?f, ?g, ?h, ?i, ?j, ?k, ?l#}" by (rule add_mset_commute)
  note s3 = s3 [folded w3]
  have a4: "\<forall>z\<in>#add_mset ?T3 {#?f, ?g, ?h, ?i, ?j, ?k, ?l#}. wt ?e < wt z" by (simp add: wt_def)
  have b4: "\<forall>z\<in>#{#?f, ?g, ?h, ?i, ?j, ?k, ?l#}. wt ?T3 < wt z" by (simp add: wt_def)
  have c4: "count_field ?e + count_field ?T3 = 20" by simp
  have s4: "buildLoop {#?e, ?T3, ?f, ?g, ?h, ?i, ?j, ?k, ?l#} h' \<longleftrightarrow> buildLoop {#?T4, ?f, ?g, ?h, ?i, ?j, ?k, ?l#} h'"
    using buildLoop_step_unique [OF a4 b4, of h'] unfolding c4 .
  have w4: "{#?T3, ?e, ?f, ?g, ?h, ?i, ?j, ?k, ?l#} = {#?e, ?T3, ?f, ?g, ?h, ?i, ?j, ?k, ?l#}" by (rule add_mset_commute)
  note s4 = s4 [folded w4]
  have a5: "\<forall>z\<in>#add_mset ?T4 {#?g, ?h, ?i, ?j, ?k, ?l#}. wt ?f < wt z" by (simp add: wt_def)
  have b5: "\<forall>z\<in>#{#?g, ?h, ?i, ?j, ?k, ?l#}. wt ?T4 < wt z" by (simp add: wt_def)
  have c5: "count_field ?f + count_field ?T4 = 33" by simp
  have s5: "buildLoop {#?f, ?T4, ?g, ?h, ?i, ?j, ?k, ?l#} h' \<longleftrightarrow> buildLoop {#?T5, ?g, ?h, ?i, ?j, ?k, ?l#} h'"
    using buildLoop_step_unique [OF a5 b5, of h'] unfolding c5 .
  have w5: "{#?T4, ?f, ?g, ?h, ?i, ?j, ?k, ?l#} = {#?f, ?T4, ?g, ?h, ?i, ?j, ?k, ?l#}" by (rule add_mset_commute)
  note s5 = s5 [folded w5]
  have a6: "\<forall>z\<in>#add_mset ?T5 {#?h, ?i, ?j, ?k, ?l#}. wt ?g < wt z" by (simp add: wt_def)
  have b6: "\<forall>z\<in>#{#?h, ?i, ?j, ?k, ?l#}. wt ?T5 < wt z" by (simp add: wt_def)
  have c6: "count_field ?g + count_field ?T5 = 54" by simp
  have s6: "buildLoop {#?g, ?T5, ?h, ?i, ?j, ?k, ?l#} h' \<longleftrightarrow> buildLoop {#?T6, ?h, ?i, ?j, ?k, ?l#} h'"
    using buildLoop_step_unique [OF a6 b6, of h'] unfolding c6 .
  have w6: "{#?T5, ?g, ?h, ?i, ?j, ?k, ?l#} = {#?g, ?T5, ?h, ?i, ?j, ?k, ?l#}" by (rule add_mset_commute)
  note s6 = s6 [folded w6]
  have a7: "\<forall>z\<in>#add_mset ?T6 {#?i, ?j, ?k, ?l#}. wt ?h < wt z" by (simp add: wt_def)
  have b7: "\<forall>z\<in>#{#?i, ?j, ?k, ?l#}. wt ?T6 < wt z" by (simp add: wt_def)
  have c7: "count_field ?h + count_field ?T6 = 88" by simp
  have s7: "buildLoop {#?h, ?T6, ?i, ?j, ?k, ?l#} h' \<longleftrightarrow> buildLoop {#?T7, ?i, ?j, ?k, ?l#} h'"
    using buildLoop_step_unique [OF a7 b7, of h'] unfolding c7 .
  have w7: "{#?T6, ?h, ?i, ?j, ?k, ?l#} = {#?h, ?T6, ?i, ?j, ?k, ?l#}" by (rule add_mset_commute)
  note s7 = s7 [folded w7]
  have a8: "\<forall>z\<in>#add_mset ?T7 {#?j, ?k, ?l#}. wt ?i < wt z" by (simp add: wt_def)
  have b8: "\<forall>z\<in>#{#?j, ?k, ?l#}. wt ?T7 < wt z" by (simp add: wt_def)
  have c8: "count_field ?i + count_field ?T7 = 143" by simp
  have s8: "buildLoop {#?i, ?T7, ?j, ?k, ?l#} h' \<longleftrightarrow> buildLoop {#?T8, ?j, ?k, ?l#} h'"
    using buildLoop_step_unique [OF a8 b8, of h'] unfolding c8 .
  have w8: "{#?T7, ?i, ?j, ?k, ?l#} = {#?i, ?T7, ?j, ?k, ?l#}" by (rule add_mset_commute)
  note s8 = s8 [folded w8]
  have a9: "\<forall>z\<in>#add_mset ?T8 {#?k, ?l#}. wt ?j < wt z" by (simp add: wt_def)
  have b9: "\<forall>z\<in>#{#?k, ?l#}. wt ?T8 < wt z" by (simp add: wt_def)
  have c9: "count_field ?j + count_field ?T8 = 232" by simp
  have s9: "buildLoop {#?j, ?T8, ?k, ?l#} h' \<longleftrightarrow> buildLoop {#?T9, ?k, ?l#} h'"
    using buildLoop_step_unique [OF a9 b9, of h'] unfolding c9 .
  have w9: "{#?T8, ?j, ?k, ?l#} = {#?j, ?T8, ?k, ?l#}" by (rule add_mset_commute)
  note s9 = s9 [folded w9]
  have a10: "\<forall>z\<in>#add_mset ?T9 {#?l#}. wt ?k < wt z" by (simp add: wt_def)
  have b10: "\<forall>z\<in>#{#?l#}. wt ?T9 < wt z" by (simp add: wt_def)
  have c10: "count_field ?k + count_field ?T9 = 376" by simp
  have s10: "buildLoop {#?k, ?T9, ?l#} h' \<longleftrightarrow> buildLoop {#?T10, ?l#} h'"
    using buildLoop_step_unique [OF a10 b10, of h'] unfolding c10 .
  have w10: "{#?T9, ?k, ?l#} = {#?k, ?T9, ?l#}" by (rule add_mset_commute)
  note s10 = s10 [folded w10]
  have a11: "\<forall>z\<in>#add_mset ?l {#}. wt ?T10 < wt z" by (simp add: wt_def)
  have b11: "\<forall>z\<in>#{#}. wt ?l < wt z" by (simp add: wt_def)
  have c11: "count_field ?T10 + count_field ?l = 753" by simp
  have s11: "buildLoop {#?T10, ?l#} h' \<longleftrightarrow> buildLoop {#?T11#} h'"
    using buildLoop_step_unique [OF a11 b11, of h'] unfolding c11 .
  have e: "?T11 = deep_root" by (simp add: deep_root_def)
  have "buildLoop {#?a, ?b, ?c, ?d, ?e, ?f, ?g, ?h, ?i, ?j, ?k, ?l#} h' \<longleftrightarrow> buildLoop {#?T1, ?c, ?d, ?e, ?f, ?g, ?h, ?i, ?j, ?k, ?l#} h'"
    by (rule s1)
  also have "\<dots> \<longleftrightarrow> buildLoop {#?T2, ?d, ?e, ?f, ?g, ?h, ?i, ?j, ?k, ?l#} h'"
    by (rule s2)
  also have "\<dots> \<longleftrightarrow> buildLoop {#?T3, ?e, ?f, ?g, ?h, ?i, ?j, ?k, ?l#} h'"
    by (rule s3)
  also have "\<dots> \<longleftrightarrow> buildLoop {#?T4, ?f, ?g, ?h, ?i, ?j, ?k, ?l#} h'"
    by (rule s4)
  also have "\<dots> \<longleftrightarrow> buildLoop {#?T5, ?g, ?h, ?i, ?j, ?k, ?l#} h'"
    by (rule s5)
  also have "\<dots> \<longleftrightarrow> buildLoop {#?T6, ?h, ?i, ?j, ?k, ?l#} h'"
    by (rule s6)
  also have "\<dots> \<longleftrightarrow> buildLoop {#?T7, ?i, ?j, ?k, ?l#} h'"
    by (rule s7)
  also have "\<dots> \<longleftrightarrow> buildLoop {#?T8, ?j, ?k, ?l#} h'"
    by (rule s8)
  also have "\<dots> \<longleftrightarrow> buildLoop {#?T9, ?k, ?l#} h'"
    by (rule s9)
  also have "\<dots> \<longleftrightarrow> buildLoop {#?T10, ?l#} h'"
    by (rule s10)
  also have "\<dots> \<longleftrightarrow> buildLoop {#?T11#} h'"
    by (rule s11)
  also have "\<dots> \<longleftrightarrow> h' = {#deep_root#}" by (simp only: buildLoop_single e)
  finally show ?thesis .
qed

lemma countCharFrequencies_deep_text:
  "nodeHeap (countCharFrequencies value_initialised deep_text) =
     mset (map (\<lambda>(c, n). HuffmanTreeNode c n nullptr nullptr) (count_loop [] deep_text))"
  by (rule nodeHeap_countCharFrequencies) (simp add: value_initialised_def fresh_def)

lemma traverse_deep_root:
  "traverseForCodeMap deep_root Map.empty [] = codeMap deep_built"
  by (simp add: deep_root_def deep_built_def)

lemma buildTree_deep_only:
  assumes "buildTree (countCharFrequencies value_initialised deep_text) res"
  shows "res = defined deep_built"
proof -
  let ?st1 = "countCharFrequencies value_initialised deep_text"
  have heap: "nodeHeap ?st1 = mset (map (\<lambda>(c, n). HuffmanTreeNode c n nullptr nullptr) (count_loop [] deep_text))"
    by (rule countCharFrequencies_deep_text)
  have size: "size (nodeHeap ?st1) = 12" unfolding heap by (simp add: count_loop_deep_text)
  have loop: "buildLoop (nodeHeap ?st1) h' \<longleftrightarrow> h' = {#deep_root#}" for h'
    unfolding heap count_loop_deep_text using buildLoop_deep [of h'] by simp
  have st1: "?st1 = value_initialised\<lparr>nodeHeap := nodeHeap ?st1\<rparr>"
    by (simp add: countCharFrequencies_def Let_def)
  have root: "root ?st1 = pointer nullptr"
    by (simp add: root_countCharFrequencies value_initialised_def)
  from assms show ?thesis
  proof (cases rule: buildTree.cases)
    case buildTree_empty
    with size show ?thesis by simp
  next
    case (buildTree_one r h1 h3 t h4 old)
    from buildTree_one(3,4) have "size (nodeHeap ?st1) = 1" by (auto dest: pq_pop_size)
    with size show ?thesis by simp
  next
    case (buildTree_more r h1 l h2 h3 t h4 old)
    have "1 < size (nodeHeap ?st1)" using size by simp
    then have "buildLoop (nodeHeap ?st1) h3"
      using buildTree_more(3,5,6) by (rule buildLoop_step)
    then have "h3 = {#deep_root#}" by (simp only: loop)
    with buildTree_more(7) have "t = deep_root" "h4 = {#}" by (simp_all add: pq_pop_single)
    with buildTree_more(1)
    have "res = defined (?st1\<lparr>root := pointer deep_root, nodeHeap := {#}, codeMap := codeMap deep_built\<rparr>)"
      by (simp only: traverse_deep_root)
    also have "?st1\<lparr>root := pointer deep_root, nodeHeap := {#}, codeMap := codeMap deep_built\<rparr> = deep_built"
      by (subst st1) (simp add: value_initialised_def fresh_def deep_built_def)
    finally show ?thesis .
  next
    case buildTree_undefined
    with root show ?thesis by simp
  qed
qed

lemma buildTree_deep:
  "buildTree (countCharFrequencies value_initialised deep_text) res \<longleftrightarrow> res = defined deep_built"
proof
  assume "buildTree (countCharFrequencies value_initialised deep_text) res"
  then show "res = defined deep_built" by (rule buildTree_deep_only)
next
  assume r: "res = defined deep_built"
  have "root (countCharFrequencies value_initialised deep_text) = pointer nullptr"
    by (simp add: root_countCharFrequencies value_initialised_def)
  from buildTree_total [OF this] obtain st' where
    b: "buildTree (countCharFrequencies value_initialised deep_text) (defined st')" by blast
  from buildTree_deep_only [OF b] have "st' = deep_built" by simp
  with b r show "buildTree (countCharFrequencies value_initialised deep_text) res" by simp
qed

lemma encode_indeterminate:
  assumes "content \<noteq> []" and "nodeHeap st = {#}" and "root st = indeterminate"
  shows "encode st content res \<longleftrightarrow> res = undefined_behaviour"
proof -
  let ?st1 = "countCharFrequencies st content"
  have h: "nodeHeap ?st1 \<noteq> {#}"
    using assms(1,2) by (simp add: nodeHeap_countCharFrequencies count_loop_Nil_iff)
  have r: "root ?st1 = indeterminate"
    using assms(3) by (simp add: root_countCharFrequencies)
  have b: "buildTree ?st1 r' \<longleftrightarrow> r' = undefined_behaviour" for r'
  proof
    assume "buildTree ?st1 r'"
    then show "r' = undefined_behaviour"
      using h r by (cases rule: buildTree.cases) simp_all
  next
    assume "r' = undefined_behaviour"
    with h r show "buildTree ?st1 r'" by (simp add: buildTree_undefined)
  qed
  show ?thesis
  proof
    assume "encode st content res"
    then show "res = undefined_behaviour"
      by (cases rule: encode.cases) (simp_all add: b)
  next
    assume "res = undefined_behaviour"
    then show "encode st content res" by (simp add: encode_undefined b)
  qed
qed

lemma export_text_extends: "\<exists>rest cm'. export_text cm xs out = (out @ rest, cm')"
proof (induction xs arbitrary: cm out)
  case Nil
  show ?case by simp
next
  case (Cons x xs)
  show ?case
  proof (cases "cm x")
    case None
    then have "export_text cm (x # xs) out = export_text (cm(x \<mapsto> [])) xs out" by simp
    then show ?thesis by (simp only: Cons)
  next
    case (Some code)
    from Cons [of cm "out @ code"] obtain rest cm' where
      "export_text cm xs (out @ code) = ((out @ code) @ rest, cm')" by blast
    with Some show ?thesis by simp
  qed
qed

lemma read_table_export:
  assumes "\<forall>rec\<in>set recs. fst rec \<noteq> newline \<and> newline \<notin> set (snd rec)"
  shows "read_table (export_table recs @ newline # payload) = (recs, payload)"
  using assms
proof (induction recs)
  case Nil
  show ?case by (simp add: export_table_def read_table.simps [of "newline # payload"])
next
  case (Cons rec recs)
  obtain c code where rec: "rec = (c, code)" by (cases rec)
  let ?rest = "export_table recs @ newline # payload"
  have e: "export_table ((c, code) # recs) @ newline # payload = (c # code) @ newline # ?rest"
    by (simp add: export_table_def)
  have "newline \<notin> set (c # code)" using Cons.prems rec by auto
  then have g: "getline ((c # code) @ newline # ?rest) = Some (c # code, ?rest)"
    by (rule getline_line)
  have r: "read_table ?rest = (recs, payload)" using Cons by simp
  have "read_table ((c # code) @ newline # ?rest) = ((c, code) # recs, payload)"
    by (subst read_table.simps) (simp only: g r option.case prod.case list.simps if_False list.sel)
  then show ?case
    unfolding rec e .
qed

lemma decode_deep_table:
  assumes d: "distinct (map fst recs)" and m: "map_of recs = codeMap deep_built"
    and p: "root st2 = pointer old"
  shows "\<exists>thrown. decode st2 (export_table recs @ newline # payload) = defined (Inl thrown, [])"
proof -
  let ?input = "export_table recs @ newline # payload"
  have wf: "\<forall>rec\<in>set recs. fst rec \<noteq> newline \<and> newline \<notin> set (snd rec)"
  proof
    fix rec assume rec: "rec \<in> set recs"
    obtain c code where cc: "rec = (c, code)" by (cases rec)
    with rec have "map_of recs c = Some code" using d by simp
    then have "codeMap deep_built c = Some code" by (simp only: m)
    then have "c \<noteq> newline \<and> newline \<notin> set code"
      by (auto simp: deep_built_def newline_def split: if_splits)
    with cc show "fst rec \<noteq> newline \<and> newline \<notin> set (snd rec)" by simp
  qed
  then have rt: "read_table ?input = (recs, payload)" by (rule read_table_export)
  have "map_of recs (CHR ''a'') = Some ''10000000011''"
    by (simp add: m deep_built_def)
  then have a: "(CHR ''a'', ''10000000011'') \<in> set recs" by (rule map_of_SomeD)
  have "\<not> stoi_accepts (CHR ''a'', ''10000000011'')"
    by (simp add: stoi_accepts_def stoi_def isspace_def isdigit_def)
  with a have na: "\<not> list_all stoi_accepts (fst (read_table ?input))"
    unfolding rt by (auto simp: list_all_iff)
  define st0 where "st0 = st2\<lparr>root := (if old = nullptr then pointer nullptr else dangling),
                    codeMap := Map.empty, reverseCodeMap := Map.empty\<rparr>"
  have rc: "reconstructTree st2 ?input = defined (reconstruct_loop (CountNode 0 nullptr nullptr) st0 ?input)"
    by (simp add: reconstructTree_def p st0_def)
  show ?thesis
  proof (cases "reconstruct_loop (CountNode 0 nullptr nullptr) st0 ?input")
    case (Inl thrown)
    then have "decode st2 ?input = defined (Inl thrown, [])"
      by (simp add: decode_def rc)
    then show ?thesis ..
  next
    case (Inr res)
    with reconstruct_loop_read_table
      [where t = "CountNode 0 nullptr nullptr" and st = st0 and input = ?input] na
    show ?thesis by (simp split: prod.splits)
  qed
qed

text \<open>
  Claim C1 (round-trip law) fails on the code. The text \<open>deep_text\<close> is not empty and has
  no newline. On the object that \<^verbatim>\<open>main\<close> declares, \<^verbatim>\<open>encode\<close> has no defined behaviour on it,
  since \<^verbatim>\<open>buildTree\<close> evaluates the indeterminate \<^verbatim>\<open>root\<close>. On the same object with a null
  \<^verbatim>\<open>root\<close>, \<^verbatim>\<open>encode\<close> has a result, every run of it ends normally, and on the output of
  every run \<^verbatim>\<open>decode\<close>, whatever the object it is called on, does not give the text back:
  on an object whose \<^verbatim>\<open>root\<close> holds a pointer it is ended by an exception and writes
  nothing, and otherwise it has no defined behaviour. The symbols \<^verbatim>\<open>a\<close> and \<^verbatim>\<open>b\<close> get codes
  of eleven bits that start with \<^verbatim>\<open>1\<close>, and \<^verbatim>\<open>reconstructTree\<close> passes each code to \<^verbatim>\<open>stoi\<close>,
  which reads it as a decimal number beyond the range of \<^verbatim>\<open>int\<close> and throws
  \<^verbatim>\<open>std::out_of_range\<close>.
\<close>

theorem round_trip_fails_on_deep_text:
  "deep_text \<noteq> [] \<and> newline \<notin> set deep_text \<and>
   (\<forall>res. encode fresh deep_text res \<longleftrightarrow> res = undefined_behaviour) \<and>
   (\<exists>st' out. encode value_initialised deep_text (defined (st', out))) \<and>
   (\<forall>res. encode value_initialised deep_text res \<longrightarrow>
      (\<exists>st' out. res = defined (st', out) \<and>
         (\<forall>st2. case root st2 of
                  pointer old \<Rightarrow> (\<exists>thrown. decode st2 out = defined (Inl thrown, []))
                | indeterminate \<Rightarrow> decode st2 out = undefined_behaviour
                | dangling \<Rightarrow> decode st2 out = undefined_behaviour)))"
proof (intro conjI allI impI)
  show ne: "deep_text \<noteq> []" by (simp add: deep_text_def)
  show "newline \<notin> set deep_text" by (simp add: deep_text_def newline_def)
  show "encode fresh deep_text res \<longleftrightarrow> res = undefined_behaviour" for res
    by (rule encode_indeterminate [OF ne]) (simp_all add: fresh_def)
next
  let ?recs = "[(CHR ''a'', ''10000000011''), (CHR ''b'', ''10000000010''),
     (CHR ''c'', ''1000000000''), (CHR ''d'', ''100000001''), (CHR ''e'', ''10000001''),
     (CHR ''f'', ''1000001''), (CHR ''g'', ''100001''), (CHR ''h'', ''10001''),
     (CHR ''i'', ''1001''), (CHR ''j'', ''101''), (CHR ''k'', ''11''), (CHR ''l'', ''0'')]"
  let ?out1 = "[] @ export_table ?recs @ [newline]"
  have b: "buildTree (countCharFrequencies value_initialised deep_text) (defined deep_built)"
    by (simp only: buildTree_deep)
  have d: "distinct (map fst ?recs)" by simp
  have m: "map_of ?recs = codeMap deep_built"
    by (rule ext) (simp add: deep_built_def)
  obtain out2 cm' where e: "export_text (codeMap deep_built) deep_text ?out1 = (out2, cm')"
    by (cases "export_text (codeMap deep_built) deep_text ?out1")
  have "encode value_initialised deep_text (defined (deep_built\<lparr>codeMap := cm'\<rparr>, out2))"
    using refl b d m refl e by (rule encode_run)
  then show "\<exists>st' out. encode value_initialised deep_text (defined (st', out))" by blast
next
  fix res
  assume "encode value_initialised deep_text res"
  then show "\<exists>st' out. res = defined (st', out) \<and>
         (\<forall>st2. case root st2 of
                  pointer old \<Rightarrow> (\<exists>thrown. decode st2 out = defined (Inl thrown, []))
                | indeterminate \<Rightarrow> decode st2 out = undefined_behaviour
                | dangling \<Rightarrow> decode st2 out = undefined_behaviour)"
  proof (cases rule: encode.cases)
    case (encode_run output0 st1 recs output1 out cm')
    from encode_run(3) have st1: "st1 = deep_built" by (simp only: buildTree_deep behaviour.inject)
    from export_text_extends [of "codeMap st1" deep_text output1] encode_run(7)
    obtain payload where "out = output1 @ payload" by auto
    with encode_run(2,6) have out: "out = export_table recs @ newline # payload" by simp
    from encode_run(5) st1 have m: "map_of recs = codeMap deep_built" by simp
    have "case root st2 of
                  pointer old \<Rightarrow> (\<exists>thrown. decode st2 out = defined (Inl thrown, []))
                | indeterminate \<Rightarrow> decode st2 out = undefined_behaviour
                | dangling \<Rightarrow> decode st2 out = undefined_behaviour" for st2
    proof (cases "root st2")
      case indeterminate
      then show ?thesis by (simp add: decode_def reconstructTree_def)
    next
      case dangling
      then show ?thesis by (simp add: decode_def reconstructTree_def)
    next
      case (pointer old)
      from decode_deep_table [OF encode_run(4) m pointer, of payload] pointer
      show ?thesis unfolding out by simp
    qed
    with encode_run(1) show ?thesis by blast
  next
    case encode_undefined
    then show ?thesis by (simp only: buildTree_deep behaviour.distinct)
  qed
qed

theorem round_trip_fails_on_deep_text_witness:
  "\<exists>st' out thrown. encode value_initialised deep_text (defined (st', out)) \<and>
      decode value_initialised out = defined (Inl thrown, []) \<and>
      decode fresh out = undefined_behaviour \<and>
      encode fresh deep_text undefined_behaviour"
proof -
  note t = round_trip_fails_on_deep_text
  from t obtain st0 out0 where e: "encode value_initialised deep_text (defined (st0, out0))"
    by blast
  from t e obtain st' out where eq: "defined (st0, out0) = defined (st', out)"
    and all: "\<forall>st2. case root st2 of
                  pointer old \<Rightarrow> (\<exists>thrown. decode st2 out = defined (Inl thrown, []))
                | indeterminate \<Rightarrow> decode st2 out = undefined_behaviour
                | dangling \<Rightarrow> decode st2 out = undefined_behaviour"
    by blast
  from eq have o: "out0 = out" by simp
  from all [rule_format, of value_initialised]
  obtain thrown where d: "decode value_initialised out = defined (Inl thrown, [])"
    by (auto simp: value_initialised_def)
  from all [rule_format, of fresh]
  have u: "decode fresh out = undefined_behaviour" by (simp add: fresh_def)
  from t have f: "encode fresh deep_text undefined_behaviour" by blast
  from e d u f o show ?thesis by blast
qed
section \<open>The round trip on the texts that the table format can carry\<close>

text \<open>
  The failure above has one cause, the conversion of a code by \<^verbatim>\<open>stoi\<close>. Whenever that
  conversion accepts every code of the table, \<^verbatim>\<open>decode\<close> on an object whose \<^verbatim>\<open>root\<close> holds a
  pointer gives back the text that \<^verbatim>\<open>encode\<close> was given, for every non-empty text without a
  line feed, every order in which the
  priority queue breaks its ties and every order in which the code map is iterated. A text
  of at most eleven distinct symbols has codes of at most ten bits, which \<^verbatim>\<open>stoi\<close> accepts.
\<close>

lemma traverseForCodeMap_map_of:
  "distinct (map fst (codes_of t p)) \<Longrightarrow>
     traverseForCodeMap t cm p a =
       (case map_of (codes_of t p) a of Some v \<Rightarrow> Some v | None \<Rightarrow> cm a)"
proof (induction t arbitrary: cm p)
  case nullptr
  show ?case by simp
next
  case (HuffmanTreeNode ch c l r)
  show ?case by simp
next
  case (CountNode c l r)
  let ?L = "codes_of l (p @ ''0'')" and ?R = "codes_of r (p @ ''1'')"
  from CountNode.prems have dl: "distinct (map fst ?L)" and dr: "distinct (map fst ?R)"
    and dj: "fst ` set ?L \<inter> fst ` set ?R = {}" by auto
  have both: "map_of ?L a = None \<or> map_of ?R a = None"
  proof (rule ccontr)
    assume "\<not> ?thesis"
    then have "a \<in> fst ` set ?L" "a \<in> fst ` set ?R"
      by (auto simp: map_of_eq_None_iff)
    with dj show False by auto
  qed
  have "traverseForCodeMap (CountNode c l r) cm p a =
          (case map_of ?R a of Some v \<Rightarrow> Some v
           | None \<Rightarrow> (case map_of ?L a of Some v \<Rightarrow> Some v | None \<Rightarrow> cm a))"
    by (simp only: traverseForCodeMap_CountNode CountNode.IH(2) [OF dr] CountNode.IH(1) [OF dl])
  also have "\<dots> = (case map_of (?L @ ?R) a of Some v \<Rightarrow> Some v | None \<Rightarrow> cm a)"
    using both by (auto simp: map_add_def split: option.splits)
  finally show ?case by simp
qed

lemma letters_codes_of: "mset (map fst (codes_of t p)) = letters t"
  by (induction t arbitrary: p) simp_all

lemma snd_codes_of: "snd ` set (codes_of t p) = leaf_paths t p"
  by (induction t arbitrary: p) (auto simp: image_Un)

lemma distinct_snd_codes_of: "distinct (map snd (codes_of t p))"
proof (induction t arbitrary: p)
  case (CountNode c l r)
  have "snd ` set (codes_of l (p @ ''0'')) \<inter> snd ` set (codes_of r (p @ ''1'')) = {}"
  proof (rule ccontr)
    assume "\<not> ?thesis"
    then obtain x where "x \<in> leaf_paths l (p @ ''0'')" "x \<in> leaf_paths r (p @ ''1'')"
      by (auto simp: snd_codes_of)
    then have "prefix (p @ ''0'') x" "prefix (p @ ''1'') x" by (auto dest: leaf_paths_prefix)
    then show False by (auto simp: prefix_def)
  qed
  with CountNode show ?case by simp
qed simp_all

lemma leaf_paths_bits:
  "x \<in> leaf_paths t p \<Longrightarrow> set x \<subseteq> set p \<union> {CHR ''0'', CHR ''1''}"
proof (induction t arbitrary: p)
  case (CountNode c l r)
  from CountNode.prems have "x \<in> leaf_paths l (p @ ''0'') \<or> x \<in> leaf_paths r (p @ ''1'')" by simp
  then show ?case using CountNode.IH by fastforce
qed auto

lemma buildLoop_sum_letters:
  "buildLoop h h' \<Longrightarrow> sum_mset (image_mset letters h') = sum_mset (image_mset letters h)"
proof (induction rule: buildLoop.induct)
  case (buildLoop_exit h)
  show ?case ..
next
  case (buildLoop_step h r h1 l h2 h')
  from buildLoop_step.hyps(2,3) have "h = add_mset r (add_mset l h2)" by (auto dest: pq_pop_add)
  with buildLoop_step.IH show ?case by (simp add: ac_simps)
qed

lemma buildLoop_top_CountNode:
  "buildLoop h h' \<Longrightarrow> h' = {#t#} \<Longrightarrow> 1 < size h \<or> (\<exists>c l r. h = {#CountNode c l r#}) \<Longrightarrow>
     \<exists>c l r. t = CountNode c l r"
proof (induction rule: buildLoop.induct)
  case (buildLoop_exit h)
  then show ?case by auto
next
  case (buildLoop_step h r h1 l h2 h')
  let ?p = "CountNode (count_field r + count_field l) l r"
  have "1 < size (add_mset ?p h2) \<or> (\<exists>c l r. add_mset ?p h2 = {#CountNode c l r#})"
    by (cases "h2 = {#}") (auto simp: nonempty_has_size [symmetric])
  with buildLoop_step show ?case by blast
qed

lemma decode_loop_code:
  assumes "rcm w = Some a" and "\<forall>u. strict_prefix u w \<longrightarrow> rcm u = None"
    and "\<forall>x\<in>set w. \<not> isspace x"
  shows "u @ v = w \<Longrightarrow> v \<noteq> [] \<Longrightarrow>
           decode_loop rcm (v @ rest) u out = decode_loop rcm rest [] (out @ [a])"
proof (induction v arbitrary: u)
  case Nil
  then show ?case by simp
next
  case (Cons x v)
  from Cons.prems(1) assms(3) have "\<not> isspace x" by auto
  then have d: "dropWhile isspace (x # ys) = x # ys" for ys by simp
  show ?case
  proof (cases "v = []")
    case True
    with Cons.prems(1) have "rcm (u @ [x]) = Some a" using assms(1) by simp
    then show ?thesis using True
      by (subst decode_loop.simps) (simp add: d del: dropWhile.simps)
  next
    case False
    from Cons.prems(1) False have "strict_prefix (u @ [x]) w"
      by (auto simp: strict_prefix_def prefix_def)
    with assms(2) have n: "rcm (u @ [x]) = None" by blast
    have "decode_loop rcm ((x # v) @ rest) u out = decode_loop rcm (v @ rest) (u @ [x]) out"
      by (subst decode_loop.simps) (simp add: d n del: dropWhile.simps)
    also have "\<dots> = decode_loop rcm rest [] (out @ [a])"
      using Cons.prems(1) False by (intro Cons.IH) simp_all
    finally show ?thesis .
  qed
qed

lemma decode_loop_text:
  assumes "\<forall>c\<in>set S. enc c \<noteq> [] \<and> rcm (enc c) = Some c \<and>
             (\<forall>u. strict_prefix u (enc c) \<longrightarrow> rcm u = None) \<and> (\<forall>x\<in>set (enc c). \<not> isspace x)"
  shows "decode_loop rcm (concat (map enc S)) [] out = (out @ S, [])"
  using assms
proof (induction S arbitrary: out)
  case Nil
  show ?case by (simp add: decode_loop.simps [of _ "[]"])
next
  case (Cons c S)
  then have c: "enc c \<noteq> []" "rcm (enc c) = Some c"
      "\<forall>u. strict_prefix u (enc c) \<longrightarrow> rcm u = None" "\<forall>x\<in>set (enc c). \<not> isspace x"
    by simp_all
  have "decode_loop rcm (enc c @ concat (map enc S)) [] out =
          decode_loop rcm (concat (map enc S)) [] (out @ [c])"
    using c(2,3,4) by (rule decode_loop_code) (simp_all add: c(1))
  also have "\<dots> = ((out @ [c]) @ S, [])" using Cons.prems by (intro Cons.IH) simp
  finally show ?case by simp
qed

lemma export_text_known:
  "set xs \<subseteq> dom cm \<Longrightarrow>
     export_text cm xs out = (out @ concat (map (\<lambda>c. the (cm c)) xs), cm)"
  by (induction xs arbitrary: out) auto

lemma sum_letters_leaves:
  "sum_mset (image_mset letters (mset (map (\<lambda>(c, n). HuffmanTreeNode c n nullptr nullptr) xs)))
     = mset (map fst xs)"
  by (induction xs) auto

lemma buildTree_codes:
  assumes heap: "nodeHeap st = {#}" and ne: "content \<noteq> []"
    and bt: "buildTree (countCharFrequencies st content) (defined st2)"
  shows "\<exists>t. root st2 = pointer t \<and> codeMap st2 = map_of (codes_of t []) \<and>
         distinct (map fst (codes_of t [])) \<and>
         fst ` set (codes_of t []) = set content \<and>
         (\<exists>c l r. t = CountNode c l r)"
proof -
  let ?xs = "count_loop [] content"
  let ?st1 = "countCharFrequencies st content"
  have h0: "nodeHeap ?st1 = mset (map (\<lambda>(c, n). HuffmanTreeNode c n nullptr nullptr) ?xs)"
    using heap by (rule nodeHeap_countCharFrequencies)
  have sum0: "sum_mset (image_mset letters (nodeHeap ?st1)) = mset (map fst ?xs)"
    unfolding h0 by (rule sum_letters_leaves)
  have key: "letters t = mset (map fst ?xs) \<Longrightarrow> (\<exists>c l r. t = CountNode c l r) \<Longrightarrow>
      traverseForCodeMap t Map.empty [] = map_of (codes_of t []) \<and>
      distinct (map fst (codes_of t [])) \<and> fst ` set (codes_of t []) = set content \<and>
      (\<exists>c l r. t = CountNode c l r)" for t
  proof -
    assume l: "letters t = mset (map fst ?xs)" and cn: "\<exists>c l r. t = CountNode c l r"
    have m: "mset (map fst (codes_of t [])) = mset (map fst ?xs)"
      by (simp only: letters_codes_of l)
    have "distinct (map fst ?xs)" by (simp add: distinct_count_loop)
    with m have d: "distinct (map fst (codes_of t []))"
      by (metis mset_eq_imp_distinct_iff)
    from m have "set (map fst (codes_of t [])) = set (map fst ?xs)" by (rule mset_eq_setD)
    then have s: "fst ` set (codes_of t []) = set content" by (simp add: fst_set_count_loop)
    have "traverseForCodeMap t Map.empty [] a = map_of (codes_of t []) a" for a
      by (simp add: traverseForCodeMap_map_of [OF d] split: option.splits)
    then have "traverseForCodeMap t Map.empty [] = map_of (codes_of t [])" by (rule ext)
    with d s cn show ?thesis by simp
  qed
  from bt show ?thesis
  proof (cases rule: buildTree.cases)
    case buildTree_empty
    then have "?xs = []" unfolding h0 by simp
    with ne show ?thesis by (simp add: count_loop_Nil_iff)
  next
    case (buildTree_one r h1 h3 t h4 old)
    from buildTree_one(3,4) have hr: "nodeHeap ?st1 = {#r#}" by (auto dest: pq_pop_add)
    from buildTree_one(4,5) have "h3 = {#CountNode (count_field r) nullptr r#}"
      by (simp add: buildLoop_single)
    with buildTree_one(6) have t: "t = CountNode (count_field r) nullptr r"
      by (simp add: pq_pop_single)
    have "letters t = mset (map fst ?xs)" using sum0 hr t by simp
    from key [OF this] t buildTree_one(1) show ?thesis by simp
  next
    case (buildTree_more r h1 l h2 h3 t h4 old)
    let ?p = "CountNode (count_field r + count_field l) l r"
    from buildTree_more(3,5) have h: "nodeHeap ?st1 = add_mset r (add_mset l h2)"
      by (auto dest: pq_pop_add)
    have "size h3 = 1" using buildTree_more(6) by (rule buildLoop_size) simp
    moreover have "h3 = add_mset t h4" using buildTree_more(7) by (rule pq_pop_add)
    ultimately have h3: "h3 = {#t#}" by simp
    have "sum_mset (image_mset letters h3) = sum_mset (image_mset letters (add_mset ?p h2))"
      using buildTree_more(6) by (rule buildLoop_sum_letters)
    then have lt: "letters t = mset (map fst ?xs)"
      using h3 h sum0 by (simp add: ac_simps)
    have "1 < size (add_mset ?p h2) \<or> (\<exists>c l r. add_mset ?p h2 = {#CountNode c l r#})"
      by (cases "h2 = {#}") (auto simp: nonempty_has_size [symmetric])
    with buildTree_more(6) h3 have "\<exists>c l r. t = CountNode c l r"
      by (rule buildLoop_top_CountNode)
    from key [OF lt this] buildTree_more(1) show ?thesis by simp
  qed
qed

lemma reverse_map_of_recs:
  assumes "distinct (map snd recs)"
  shows "reverse_map_of recs Map.empty w = Some a \<longleftrightarrow> (a, w) \<in> set recs"
proof -
  let ?sw = "\<lambda>xs :: (char \<times> string) list. map (\<lambda>rec. (snd rec, fst rec)) xs"
  have gen: "distinct (map snd xs) \<Longrightarrow>
      reverse_map_of xs m w = (case map_of (?sw xs) w of Some a \<Rightarrow> Some a | None \<Rightarrow> m w)"
    for xs :: "(char \<times> string) list" and m
  proof (induction xs arbitrary: m)
    case Nil
    show ?case by (simp add: reverse_map_of_def)
  next
    case (Cons x xs)
    obtain k v where x: "x = (k, v)" by (cases x)
    from Cons.prems x have v: "v \<notin> snd ` set xs" and d: "distinct (map snd xs)" by auto
    have r: "reverse_map_of (x # xs) m = reverse_map_of xs (m(v \<mapsto> k))"
      by (simp add: reverse_map_of_def x)
    have "fst ` set (?sw xs) = snd ` set xs" by force
    with v have n: "map_of (?sw xs) v = None" by (simp add: map_of_eq_None_iff)
    show ?case
    proof (cases "w = v")
      case True
      then show ?thesis unfolding r Cons.IH [OF d] using x n by simp
    next
      case False
      then show ?thesis unfolding r Cons.IH [OF d] using x by (simp split: option.splits)
    qed
  qed
  have d: "distinct (map fst (?sw recs))" using assms by (simp add: comp_def)
  have "reverse_map_of recs Map.empty w = Some a \<longleftrightarrow> map_of (?sw recs) w = Some a"
    by (simp add: gen [OF assms] split: option.splits)
  also have "\<dots> \<longleftrightarrow> (w, a) \<in> set (?sw recs)"
    using d by (rule map_of_eq_Some_iff)
  also have "\<dots> \<longleftrightarrow> (a, w) \<in> set recs" by force
  finally show ?thesis .
qed

lemma round_trip_when_stoi_accepts:
  assumes heap: "nodeHeap st = {#}" and ne: "content \<noteq> []" and nl: "newline \<notin> set content"
    and enc: "encode st content (defined (st', out))"
    and acc: "\<forall>c code. codeMap st' c = Some code \<longrightarrow> stoi_accepts (c, code)"
    and p2: "root st2 = pointer old2"
  shows "\<exists>st3. decode st2 out = defined (Inr st3, content)"
proof -
  from enc obtain st1 recs output1 cm' where
      b: "buildTree (countCharFrequencies st content) (defined st1)"
    and d: "distinct (map fst recs)"
    and r: "map_of recs = codeMap st1"
    and o: "output1 = [] @ export_table recs @ [newline]"
    and e: "export_text (codeMap st1) content output1 = (out, cm')"
    and s': "st' = st1\<lparr>codeMap := cm'\<rparr>"
    by (auto elim!: encode.cases)
  let ?cm = "codeMap st1"
  let ?enc = "\<lambda>c. the (?cm c)"
  let ?payload = "concat (map ?enc content)"
  from buildTree_codes [OF heap ne b]
  obtain t where cm: "?cm = map_of (codes_of t [])" and dc: "distinct (map fst (codes_of t []))"
    and keys: "fst ` set (codes_of t []) = set content" and cn: "\<exists>c l r. t = CountNode c l r"
    by blast
  let ?codes = "codes_of t []"
  have dom: "dom ?cm = set content" unfolding cm using keys by (simp add: dom_map_of_conv_image_fst)
  then have "export_text ?cm content output1 = (output1 @ ?payload, ?cm)"
    by (intro export_text_known) simp
  with e o have out: "out = export_table recs @ newline # ?payload" and cm': "cm' = ?cm"
    by simp_all
  have set_recs: "set recs = set ?codes"
    using r cm map_of_inject_set [OF d dc] by simp
  have in_recs: "(c, w) \<in> set recs \<longleftrightarrow> ?cm c = Some w" for c w
    using d r by (metis map_of_eq_Some_iff)
  have paths: "w \<in> leaf_paths t []" if "(c, w) \<in> set recs" for c w
    using that set_recs snd_codes_of [of t "[]"] by force
  have bits: "set w \<subseteq> {CHR ''0'', CHR ''1''}" if "(c, w) \<in> set recs" for c w
    using leaf_paths_bits [OF paths [OF that]] by simp
  have nonempty: "w \<noteq> []" if "(c, w) \<in> set recs" for c w
  proof -
    from cn obtain k l r where t: "t = CountNode k l r" by blast
    from paths [OF that] have "prefix ''0'' w \<or> prefix ''1'' w"
      unfolding t by (auto dest: leaf_paths_prefix)
    then show ?thesis by auto
  qed
  have wf: "\<forall>rec\<in>set recs. fst rec \<noteq> newline \<and> newline \<notin> set (snd rec)"
  proof
    fix rec assume rec: "rec \<in> set recs"
    obtain c w where cw: "rec = (c, w)" by (cases rec)
    with rec have "c \<in> set content" using set_recs keys by force
    with nl have "c \<noteq> newline" by auto
    moreover from bits [of c w] rec cw have "newline \<notin> set w" by (auto simp: newline_def)
    ultimately show "fst rec \<noteq> newline \<and> newline \<notin> set (snd rec)" using cw by simp
  qed
  then have rt: "read_table out = (recs, ?payload)" unfolding out by (rule read_table_export)
  have all: "list_all stoi_accepts recs"
    unfolding list_all_iff
  proof
    fix rec assume rec: "rec \<in> set recs"
    obtain c w where cw: "rec = (c, w)" by (cases rec)
    with rec have "?cm c = Some w" by (simp add: in_recs)
    then have "codeMap st' c = Some w" using s' cm' by simp
    with acc cw show "stoi_accepts rec" by blast
  qed
  have "inj_on snd (set ?codes)" using distinct_snd_codes_of [of t "[]"] by (simp add: distinct_map)
  then have ds: "distinct (map snd recs)"
    using d set_recs by (simp add: distinct_map)
  define st0 where "st0 = st2\<lparr>root := (if old2 = nullptr then pointer nullptr else dangling),
                    codeMap := Map.empty, reverseCodeMap := Map.empty\<rparr>"
  have e0: "reverseCodeMap st0 = Map.empty" by (simp add: st0_def)
  have rc: "reconstructTree st2 out = defined (reconstruct_loop (CountNode 0 nullptr nullptr) st0 out)"
    by (simp add: reconstructTree_def p2 st0_def)
  let ?rcm = "reverse_map_of recs Map.empty"
  from reconstruct_loop_read_table
      [where t = "CountNode 0 nullptr nullptr" and st = st0 and input = out] all rt
  obtain t' st3 where rl: "reconstruct_loop (CountNode 0 nullptr nullptr) st0 out = Inr (t', st3, ?payload)"
    and rcm: "reverseCodeMap st3 = ?rcm"
    by (auto simp: e0 split: sum.splits)
  have "decode_loop ?rcm ?payload [] [] = ([] @ content, [])"
  proof (rule decode_loop_text, rule ballI)
    fix c assume "c \<in> set content"
    with dom obtain w where w: "?cm c = Some w" by auto
    then have cw: "(c, w) \<in> set recs" by (simp add: in_recs)
    have 1: "?enc c \<noteq> []" using nonempty [OF cw] w by simp
    have 2: "?rcm (?enc c) = Some c" using cw w by (simp add: reverse_map_of_recs [OF ds])
    have 3: "\<forall>u. strict_prefix u (?enc c) \<longrightarrow> ?rcm u = None"
    proof (intro allI impI)
      fix u assume u: "strict_prefix u (?enc c)"
      show "?rcm u = None"
      proof (rule ccontr)
        assume "?rcm u \<noteq> None"
        then obtain b where "?rcm u = Some b" by auto
        then have "(b, u) \<in> set recs" by (simp add: reverse_map_of_recs [OF ds])
        from paths [OF this] paths [OF cw] u w have "u = w"
          by (intro leaf_paths_prefix_free [of u t "[]" w]) (simp_all add: strict_prefix_def)
        with u w show False by (simp add: strict_prefix_def)
      qed
    qed
    have 4: "\<forall>x\<in>set (?enc c). \<not> isspace x"
      using bits [OF cw] w by (auto simp: isspace_def)
    from 1 2 3 4 show "?enc c \<noteq> [] \<and> ?rcm (?enc c) = Some c \<and>
        (\<forall>u. strict_prefix u (?enc c) \<longrightarrow> ?rcm u = None) \<and> (\<forall>x\<in>set (?enc c). \<not> isspace x)"
      by blast
  qed
  with rl rcm have "decode st2 out = defined (Inr st3, content)"
    by (simp add: decode_def rc)
  then show ?thesis ..
qed

lemma digits_value_bits:
  "set w \<subseteq> {CHR ''0'', CHR ''1''} \<Longrightarrow> 0 \<le> acc \<Longrightarrow>
     0 \<le> digits_value acc w \<and> 9 * digits_value acc w + 1 \<le> (9 * acc + 1) * 10 ^ length w"
proof (induction w arbitrary: acc)
  case Nil
  then show ?case by simp
next
  case (Cons d ds)
  define a where "a = 10 * acc + (of_char d - 48 :: int)"
  from Cons.prems(1) have "d = CHR ''0'' \<or> d = CHR ''1''" by simp
  then have b: "a = 10 * acc \<or> a = 10 * acc + 1" unfolding a_def by auto
  then have nn: "0 \<le> a" using Cons.prems(2) by auto
  from Cons.prems(1) have "set ds \<subseteq> {CHR ''0'', CHR ''1''}" by simp
  from Cons.IH [OF this nn]
  have 1: "0 \<le> digits_value a ds"
    and 2: "9 * digits_value a ds + 1 \<le> (9 * a + 1) * 10 ^ length ds"
    by simp_all
  have "9 * a + 1 \<le> (9 * acc + 1) * 10" using b by auto
  then have "(9 * a + 1) * 10 ^ length ds \<le> ((9 * acc + 1) * 10) * 10 ^ length ds"
    by (intro mult_right_mono) simp_all
  also have "\<dots> = (9 * acc + 1) * 10 ^ length (d # ds)" by simp
  finally have 3: "(9 * a + 1) * 10 ^ length ds \<le> (9 * acc + 1) * 10 ^ length (d # ds)" .
  have e: "digits_value acc (d # ds) = digits_value a ds" unfolding a_def by simp
  from 1 2 3 show ?case unfolding e by linarith
qed

lemma stoi_bits:
  assumes "set w \<subseteq> {CHR ''0'', CHR ''1''}" and "w \<noteq> []" and "length w \<le> 10"
  shows "\<exists>v. stoi w = Inr v"
proof -
  from assms(1) have dig: "\<forall>x\<in>set w. isdigit x" by (auto simp: isdigit_def)
  from assms(1,2) have "\<not> isspace (hd w)" "hd w \<noteq> CHR ''-''" "hd w \<noteq> CHR ''+''"
    by (cases w; auto simp: isspace_def)+
  then have dw: "dropWhile isspace w = w" using assms(2) by (cases w) auto
  have tw: "takeWhile isdigit w = w" using dig by (simp add: takeWhile_eq_all_conv)
  from digits_value_bits [OF assms(1), of 0]
  have v: "0 \<le> digits_value 0 w" "9 * digits_value 0 w + 1 \<le> 10 ^ length w" by simp_all
  have "(10::int) ^ length w \<le> 10 ^ 10" using assms(3) by (intro power_increasing) simp_all
  with v(2) have "digits_value 0 w \<le> 2147483647" by simp
  with v(1) show ?thesis
    using \<open>hd w \<noteq> CHR ''-''\<close> \<open>hd w \<noteq> CHR ''+''\<close> assms(2)
    by (simp add: stoi_def dw tw Let_def)
qed

lemma letters_nonempty: "t \<noteq> nullptr \<Longrightarrow> internal_full t \<Longrightarrow> letters t \<noteq> {#}"
  by (induction t) auto

lemma leaf_paths_length:
  "x \<in> leaf_paths t p \<Longrightarrow> internal_full t \<Longrightarrow> length x + 1 \<le> length p + size (letters t)"
proof (induction t arbitrary: p)
  case nullptr
  then show ?case by simp
next
  case (HuffmanTreeNode ch c l r)
  then show ?case by simp
next
  case (CountNode c l r)
  from CountNode.prems(2) have f: "internal_full l" "internal_full r" "l \<noteq> nullptr" "r \<noteq> nullptr"
    by simp_all
  then have "letters l \<noteq> {#}" "letters r \<noteq> {#}" by (simp_all add: letters_nonempty)
  then have s: "1 \<le> size (letters l)" "1 \<le> size (letters r)"
    by (simp_all add: Suc_le_eq nonempty_has_size)
  from CountNode.prems(1) have "x \<in> leaf_paths l (p @ ''0'') \<or> x \<in> leaf_paths r (p @ ''1'')" by simp
  then show ?case
  proof
    assume "x \<in> leaf_paths l (p @ ''0'')"
    from CountNode.IH(1) [OF this f(1)] s show ?thesis by simp
  next
    assume "x \<in> leaf_paths r (p @ ''1'')"
    from CountNode.IH(2) [OF this f(2)] s show ?thesis by simp
  qed
qed

lemma buildTree_code_length:
  assumes heap: "nodeHeap st = {#}" and ne: "content \<noteq> []"
    and bt: "buildTree (countCharFrequencies st content) (defined st1)"
    and code: "codeMap st1 c = Some w"
  shows "w \<noteq> [] \<and> set w \<subseteq> {CHR ''0'', CHR ''1''} \<and> length w \<le> max 1 (card (set content) - 1)"
proof -
  from buildTree_codes [OF heap ne bt]
  obtain t where rt: "root st1 = pointer t"
    and cm: "codeMap st1 = map_of (codes_of t [])" and dc: "distinct (map fst (codes_of t []))"
    and keys: "fst ` set (codes_of t []) = set content" and cn: "\<exists>c l r. t = CountNode c l r"
    by blast
  let ?codes = "codes_of t []"
  from code have "(c, w) \<in> set ?codes" unfolding cm by (rule map_of_SomeD)
  then have "w \<in> snd ` set ?codes" by force
  then have path: "w \<in> leaf_paths t []" by (simp add: snd_codes_of)
  from leaf_paths_bits [OF path] have bits: "set w \<subseteq> {CHR ''0'', CHR ''1''}" by simp
  from cn obtain k l r where t: "t = CountNode k l r" by blast
  from path have "prefix ''0'' w \<or> prefix ''1'' w"
    unfolding t by (auto dest: leaf_paths_prefix)
  then have nonempty: "w \<noteq> []" by auto
  have "size (letters t) = length ?codes"
    using letters_codes_of [of t "[]", symmetric] by (metis size_mset length_map)
  also have "\<dots> = card (set content)"
    using distinct_card [OF dc] keys by simp
  finally have sz: "size (letters t) = card (set content)" .
  have len: "length w \<le> max 1 (card (set content) - 1)"
  proof (cases "2 \<le> card (set content)")
    case True
    from buildTree_full [OF heap bt True] rt have "internal_full t" by auto
    from leaf_paths_length [OF path this] sz show ?thesis by simp
  next
    case False
    moreover from ne have "card (set content) \<noteq> 0" by simp
    ultimately have "card (set content) = 1" by linarith
    then obtain a where a: "set content = {a}" by (auto simp: card_1_singleton_iff)
    from ne have "nodeHeap (countCharFrequencies st content) \<noteq> {#}"
      using heap by (simp add: nodeHeap_countCharFrequencies count_loop_Nil_iff)
    with bt obtain old where "root (countCharFrequencies st content) = pointer old"
      by (cases rule: buildTree.cases) simp_all
    then have r: "root st = pointer old" by (simp add: root_countCharFrequencies)
    from bt have "codeMap st1 = [a \<mapsto> ''1'']"
      by (simp add: buildTree_single [OF heap a r])
    with code have "w = ''1''" by (auto split: if_splits)
    then show ?thesis by simp
  qed
  from nonempty bits len show ?thesis by blast
qed

lemma round_trip_small_alphabet:
  assumes heap: "nodeHeap st = {#}" and ne: "content \<noteq> []" and nl: "newline \<notin> set content"
    and small: "card (set content) \<le> 11"
    and enc: "encode st content (defined (st', out))"
    and p2: "root st2 = pointer old2"
  shows "\<exists>st3. decode st2 out = defined (Inr st3, content)"
proof (rule round_trip_when_stoi_accepts [OF heap ne nl enc _ p2], intro allI impI)
  fix c code assume code: "codeMap st' c = Some code"
  from enc obtain st1 recs output1 cm' where
      b: "buildTree (countCharFrequencies st content) (defined st1)"
    and e: "export_text (codeMap st1) content output1 = (out, cm')"
    and s': "st' = st1\<lparr>codeMap := cm'\<rparr>"
    by (auto elim!: encode.cases)
  from buildTree_codes [OF heap ne b]
  obtain t where cm: "codeMap st1 = map_of (codes_of t [])"
    and keys: "fst ` set (codes_of t []) = set content"
    by blast
  have dom: "dom (codeMap st1) = set content"
    unfolding cm using keys by (simp add: dom_map_of_conv_image_fst)
  then have "export_text (codeMap st1) content output1 =
      (output1 @ concat (map (\<lambda>c. the (codeMap st1 c)) content), codeMap st1)"
    by (intro export_text_known) simp
  with e have "cm' = codeMap st1" by simp
  with code s' have "codeMap st1 c = Some code" by simp
  from buildTree_code_length [OF heap ne b this] small
  have "code \<noteq> []" "set code \<subseteq> {CHR ''0'', CHR ''1''}" "length code \<le> 10" by auto
  from stoi_bits [OF this(2,1,3)] show "stoi_accepts (c, code)"
    by (auto simp: stoi_accepts_def)
qed

end
